theory Spec2Isabelle
  imports Complex_Main "HOL-Library.Signed_Division"
begin

unbundle bit_operations_syntax

section \<open>Data model of the search core (search.cpp, timeman.h)\<close>

text \<open>
  Scores, depths and plies are C++ \<open>int\<close>s; every score the search handles lies between
  \<open>-INFTY\<close> and \<open>INFTY\<close>, far from the 32-bit limits, so they are modelled as
  unbounded \<open>int\<close>. A \<open>Move\<close> is an opaque token; a colour is 0 or 1 and \<open>color^1\<close>
  is \<open>color XOR 1\<close>.

  The header \<open>search.h\<close> and the classes behind it (\<open>Board\<close>, \<open>Hash\<close>,
  \<open>MoveList\<close>, \<open>ScoreList\<close>) are not part of the sources at hand. Their constants
  and operations are parameters of the model: the record \<open>Common\<close> holds the
  constants and the free functions on moves, \<open>BoardOps\<close> the methods of \<open>Board\<close>
  over an arbitrary position type \<open>'b\<close>, and \<open>Env\<close> adds the transposition
  table's \<open>get\<close> and \<open>add\<close> over an arbitrary table type \<open>'t\<close> and the wall
  clock. \<open>MoveList\<close> and \<open>ScoreList\<close> are lists.
\<close>

type_synonym Move = nat

text \<open>Modelled from the spec: the distinguished null move token \<open>NULL_MOVE\<close> of the
  absent header. Only equality with it is ever used.\<close>

definition NULL_MOVE :: Move where
  "NULL_MOVE = 0"

datatype NodeType = PV_NODE | CUT_NODE | ALL_NODE

record HashEntry =
  e_m :: Move
  e_depth :: int
  e_score :: int
  e_nodeType :: NodeType

record Common =
  MAX_DEPTH :: nat
  MATE_SCORE :: int
  INFTY :: int
  MAX_POS_SCORE :: int
  PAWN_VALUE :: int
  KNIGHT_VALUE :: int
  QUEEN_VALUE :: int
  PAWNS :: int
  KNIGHTS :: int
  ROOKS :: int
  QUEENS :: int
  WHITE :: nat
  MAX_TIME :: nat
  ONE_SECOND :: real
  isCapture :: "Move \<Rightarrow> bool"
  isPromotion :: "Move \<Rightarrow> bool"
  getPromotion :: "Move \<Rightarrow> int"
  getStartSq :: "Move \<Rightarrow> nat"
  getEndSq :: "Move \<Rightarrow> nat"

text \<open>
  \<open>copy.doPseudoLegalMove(m, color)\<close> and \<open>copy.doHashMove(m, color)\<close> play the move
  on a fresh copy and report whether it was legal: here they return the new position, or
  \<open>None\<close> for an illegal move. \<open>staticCopy\<close> is the identity on values.
\<close>

record 'b BoardOps =
  isDraw :: "'b \<Rightarrow> bool"
  isInCheck :: "'b \<Rightarrow> nat \<Rightarrow> bool"
  evaluate :: "'b \<Rightarrow> int"
  evaluateMaterial :: "'b \<Rightarrow> int"
  evaluatePositional :: "'b \<Rightarrow> int"
  getNonPawnMaterial :: "'b \<Rightarrow> nat \<Rightarrow> int"
  getPseudoLegalCheckEscapes :: "'b \<Rightarrow> nat \<Rightarrow> Move list"
  getAllPseudoLegalMoves :: "'b \<Rightarrow> nat \<Rightarrow> Move list"
  getPseudoLegalCaptures :: "'b \<Rightarrow> nat \<Rightarrow> bool \<Rightarrow> Move list"
  getPseudoLegalPromotions :: "'b \<Rightarrow> nat \<Rightarrow> Move list"
  getPseudoLegalChecks :: "'b \<Rightarrow> nat \<Rightarrow> Move list"
  getAllLegalMoves :: "'b \<Rightarrow> nat \<Rightarrow> Move list"
  doPseudoLegalMove :: "'b \<Rightarrow> Move \<Rightarrow> nat \<Rightarrow> 'b option"
  doHashMove :: "'b \<Rightarrow> Move \<Rightarrow> nat \<Rightarrow> 'b option"
  doMove :: "'b \<Rightarrow> Move \<Rightarrow> nat \<Rightarrow> 'b"
  doNullMove :: "'b \<Rightarrow> 'b"
  getSEE :: "'b \<Rightarrow> nat \<Rightarrow> nat \<Rightarrow> int"
  getMVVLVAScore :: "'b \<Rightarrow> nat \<Rightarrow> Move \<Rightarrow> int"
  getExchangeScore :: "'b \<Rightarrow> nat \<Rightarrow> Move \<Rightarrow> int"
  valueOfPiece :: "'b \<Rightarrow> nat \<Rightarrow> int"
  getPieceOnSquare :: "'b \<Rightarrow> nat \<Rightarrow> nat \<Rightarrow> nat"
  isCheckMove :: "'b \<Rightarrow> Move \<Rightarrow> nat \<Rightarrow> bool"
  getPlayerToMove :: "'b \<Rightarrow> nat"
  getMoveNumber :: "'b \<Rightarrow> nat"

text \<open>
  \<open>clock n\<close> is what the \<open>n\<close>-th call of \<open>getTimeElapsed(searchParams.startTime)\<close>
  returns, in seconds.
\<close>

record ('b, 't) Env =
  common :: Common
  board :: "'b BoardOps"
  ttGet :: "'t \<Rightarrow> 'b \<Rightarrow> HashEntry option"
  ttAdd :: "'t \<Rightarrow> 'b \<Rightarrow> int \<Rightarrow> Move \<Rightarrow> int \<Rightarrow> NodeType \<Rightarrow> nat \<Rightarrow> 't"
  clock :: "nat \<Rightarrow> real"

datatype Diag = Type1TTError Move

text \<open>
  The process-wide state of one search: the fields of \<open>searchParams\<close> (the start time is
  the origin of \<open>clock\<close>), the transposition table, the stop flag \<open>isStop\<close>, the number
  of clock readings made so far and the lines written to \<open>cerr\<close> by the search proper.
  \<open>killers[MAX_DEPTH][2]\<close> is a list of pairs, \<open>historyTable[2][6][64]\<close> a list of
  lists of lists. The statistics counters \<open>searchStats\<close> and the principal-variation
  buffers \<open>SearchPV\<close> are written but never read by the code below; they are left out.
\<close>

record 't Search =
  ply :: int
  nullMoveCount :: int
  timeLimit :: nat
  killers :: "(Move \<times> Move) list"
  historyTable :: "int list list list"
  rootMoveNumber :: nat
  transpositionTable :: 't
  isStop :: bool
  clockReads :: nat
  cerr :: "Diag list"

datatype ('r, 'k) Flow = Return 'r | Fallthrough 'k

section \<open>SearchParameters::reset\<close>

definition resetHistoryTable :: "'t Search \<Rightarrow> 't Search" where
  "resetHistoryTable s = s\<lparr>historyTable := replicate 2 (replicate 6 (replicate 64 0))\<rparr>"

definition reset :: "Common \<Rightarrow> 't Search \<Rightarrow> 't Search" where
  "reset c s =
     resetHistoryTable
       (s\<lparr>ply := 0, nullMoveCount := 0,
          killers := replicate (MAX_DEPTH c) (NULL_MOVE, NULL_MOVE)\<rparr>)"

section \<open>scoreMate\<close>

definition scoreMate :: "Common \<Rightarrow> 't Search \<Rightarrow> bool \<Rightarrow> int \<Rightarrow> int \<Rightarrow> int \<Rightarrow> int" where
  "scoreMate c s inCheck depth alpha beta =
     (let score = (if inCheck then - MATE_SCORE c + ply s else 0) in
      if score \<ge> beta then beta
      else (let alpha' = (if score > alpha then score else alpha) in alpha'))"

section \<open>nextMove\<close>

definition swap :: "'a list \<Rightarrow> nat \<Rightarrow> nat \<Rightarrow> 'a list" where
  "swap xs i j = xs[i := xs ! j, j := xs ! i]"

text \<open>The \<open>for\<close> loop of \<open>nextMove\<close>, carrying \<open>(bestIndex, bestScore)\<close>.\<close>

definition findBest :: "int list \<Rightarrow> nat \<Rightarrow> nat \<Rightarrow> nat \<times> int" where
  "findBest scores index n =
     fold (\<lambda>i (bestIndex, bestScore).
             if scores ! i > bestScore then (i, scores ! i) else (bestIndex, bestScore))
          [index + 1 ..< n] (index, scores ! index)"

definition nextMove :: "Move list \<Rightarrow> int list \<Rightarrow> nat \<Rightarrow> Move \<times> Move list \<times> int list" where
  "nextMove moves scores index =
     (if index \<ge> length moves then (NULL_MOVE, moves, scores)
      else (let bestIndex = fst (findBest scores index (length moves));
                moves' = swap moves bestIndex index;
                scores' = swap scores bestIndex index
            in (moves' ! index, moves', scores')))"



section \<open>Quiescence search\<close>

text \<open>
  \<open>quiescence\<close> and \<open>checkQuiescence\<close> call each other. Each body is written over
  the functions it calls (\<open>q\<close> for \<open>quiescence\<close>, \<open>cq\<close> for \<open>checkQuiescence\<close>);
  the recursion is closed further down with a bound on the call depth. A search function
  returns \<open>None\<close> when that bound is exhausted. A loop returns \<open>Return r\<close> when the
  code leaves the function with \<open>return r\<close> inside the loop, and \<open>Fallthrough\<close> with
  the loop's variables when the loop ends.

  The quiescence functions read \<open>searchParams.ply\<close> (the argument \<open>sply\<close>) and write
  nothing but statistics.
\<close>

type_synonym 'b QS = "'b \<Rightarrow> nat \<Rightarrow> int \<Rightarrow> int \<Rightarrow> int \<Rightarrow> int option"

text \<open>The capture loop of \<open>quiescence\<close> (lines 690-716).\<close>

function qsCaptures ::
  "('b, 't) Env \<Rightarrow> 'b QS \<Rightarrow> 'b \<Rightarrow> nat \<Rightarrow> int \<Rightarrow> int \<Rightarrow> int \<Rightarrow>
     Move list \<Rightarrow> int list \<Rightarrow> nat \<Rightarrow> int \<Rightarrow> (int, int) Flow option" where
  "qsCaptures env q b color plies standPat beta moves scores i alpha =
     (case nextMove moves scores i of
        (m, moves', scores') \<Rightarrow>
          if m = NULL_MOVE then Some (Fallthrough alpha)
          else if standPat
                    + valueOfPiece (board env) b
                        (getPieceOnSquare (board env) b (color XOR 1) (getEndSq (common env) m))
                  < alpha - MAX_POS_SCORE (common env)
            then qsCaptures env q b color plies standPat beta moves' scores' (Suc i) alpha
          else if getExchangeScore (board env) b color m < 0
                  \<and> getSEE (board env) b color (getEndSq (common env) m)
                      < - MAX_POS_SCORE (common env)
            then qsCaptures env q b color plies standPat beta moves' scores' (Suc i) alpha
          else (case doPseudoLegalMove (board env) b m color of
                  None \<Rightarrow> qsCaptures env q b color plies standPat beta moves' scores' (Suc i) alpha
                | Some copy \<Rightarrow>
                    (case q copy (color XOR 1) (plies + 1) (- beta) (- alpha) of
                       None \<Rightarrow> None
                     | Some r \<Rightarrow>
                         if - r \<ge> beta then Some (Return beta)
                         else qsCaptures env q b color plies standPat beta moves' scores' (Suc i)
                                (if - r > alpha then - r else alpha))))"
  by pat_completeness auto
termination
  by (relation "measure (\<lambda>(env, q, b, color, plies, standPat, beta, moves, scores, i, alpha).
                            length moves - i)")
     (auto simp: nextMove_def swap_def Let_def split: if_splits)

declare qsCaptures.simps [simp del]

text \<open>The promotion loop (lines 718-743) and the check loop (lines 749-770).\<close>

fun qsPromotions ::
  "('b, 't) Env \<Rightarrow> 'b QS \<Rightarrow> 'b \<Rightarrow> nat \<Rightarrow> int \<Rightarrow> int \<Rightarrow> Move list \<Rightarrow> int \<Rightarrow>
     (int, int) Flow option" where
  "qsPromotions env q b color plies beta [] alpha = Some (Fallthrough alpha)"
| "qsPromotions env q b color plies beta (m # ms) alpha =
     (if getSEE (board env) b color (getEndSq (common env) m) < 0
        then qsPromotions env q b color plies beta ms alpha
      else (case doPseudoLegalMove (board env) b m color of
              None \<Rightarrow> qsPromotions env q b color plies beta ms alpha
            | Some copy \<Rightarrow>
                (case q copy (color XOR 1) (plies + 1) (- beta) (- alpha) of
                   None \<Rightarrow> None
                 | Some r \<Rightarrow>
                     if - r \<ge> beta then Some (Return beta)
                     else qsPromotions env q b color plies beta ms
                            (if - r > alpha then - r else alpha))))"

fun qsChecks ::
  "('b, 't) Env \<Rightarrow> 'b QS \<Rightarrow> 'b \<Rightarrow> nat \<Rightarrow> int \<Rightarrow> int \<Rightarrow> Move list \<Rightarrow> int \<Rightarrow>
     (int, int) Flow option" where
  "qsChecks env cq b color plies beta [] alpha = Some (Fallthrough alpha)"
| "qsChecks env cq b color plies beta (m # ms) alpha =
     (case doPseudoLegalMove (board env) b m color of
        None \<Rightarrow> qsChecks env cq b color plies beta ms alpha
      | Some copy \<Rightarrow>
          (case cq copy (color XOR 1) (plies + 1) (- beta) (- alpha) of
             None \<Rightarrow> None
           | Some r \<Rightarrow>
               if - r \<ge> beta then Some (Return beta)
               else qsChecks env cq b color plies beta ms
                      (if - r > alpha then - r else alpha)))"

definition quiescence_body ::
  "('b, 't) Env \<Rightarrow> 'b QS \<Rightarrow> 'b QS \<Rightarrow> 'b QS" where
  "quiescence_body env q cq b color plies alpha beta =
     (if isInCheck (board env) b color then cq b color plies alpha beta
      else
        let standPat = (if color = WHITE (common env) then evaluateMaterial (board env) b
                        else - evaluateMaterial (board env) b) in
        if standPat \<ge> beta + MAX_POS_SCORE (common env) then Some beta
        else if standPat < alpha - 2 * MAX_POS_SCORE (common env) - QUEEN_VALUE (common env)
          then Some alpha
        else
          let standPat' = standPat + (if color = WHITE (common env)
                                      then evaluatePositional (board env) b
                                      else - evaluatePositional (board env) b);
              alpha1 = (if alpha < standPat' then standPat' else alpha) in
          if standPat' \<ge> beta then Some beta
          else if standPat' < alpha1 - MAX_POS_SCORE (common env) - QUEEN_VALUE (common env)
            then Some alpha1
          else
            let legalCaptures = getPseudoLegalCaptures (board env) b color False;
                scores = map (getMVVLVAScore (board env) b color) legalCaptures in
            (case qsCaptures env q b color plies standPat' beta legalCaptures scores 0 alpha1 of
               None \<Rightarrow> None
             | Some (Return r) \<Rightarrow> Some r
             | Some (Fallthrough alpha2) \<Rightarrow>
                 (case qsPromotions env q b color plies beta
                         (getPseudoLegalPromotions (board env) b color) alpha2 of
                    None \<Rightarrow> None
                  | Some (Return r) \<Rightarrow> Some r
                  | Some (Fallthrough alpha3) \<Rightarrow>
                      if plies \<le> 0 then
                        (case qsChecks env cq b color plies beta
                                (getPseudoLegalChecks (board env) b color) alpha3 of
                           None \<Rightarrow> None
                         | Some (Return r) \<Rightarrow> Some r
                         | Some (Fallthrough alpha4) \<Rightarrow> Some alpha4)
                      else Some alpha3)))"

text \<open>The loop of \<open>checkQuiescence\<close> (lines 792-812), carrying \<open>score\<close> and \<open>alpha\<close>.\<close>

fun cqEscapes ::
  "('b, 't) Env \<Rightarrow> 'b QS \<Rightarrow> 'b \<Rightarrow> nat \<Rightarrow> int \<Rightarrow> int \<Rightarrow> Move list \<Rightarrow> int \<Rightarrow> int \<Rightarrow>
     (int, int \<times> int) Flow option" where
  "cqEscapes env q b color plies beta [] score alpha = Some (Fallthrough (score, alpha))"
| "cqEscapes env q b color plies beta (m # ms) score alpha =
     (case doPseudoLegalMove (board env) b m color of
        None \<Rightarrow> cqEscapes env q b color plies beta ms score alpha
      | Some copy \<Rightarrow>
          (case q copy (color XOR 1) (plies + 1) (- beta) (- alpha) of
             None \<Rightarrow> None
           | Some r \<Rightarrow>
               if - r \<ge> beta then Some (Return beta)
               else cqEscapes env q b color plies beta ms (- r)
                      (if - r > alpha then - r else alpha)))"

definition checkQuiescence_body ::
  "('b, 't) Env \<Rightarrow> int \<Rightarrow> 'b QS \<Rightarrow> 'b QS" where
  "checkQuiescence_body env sply q b color plies alpha beta =
     (case cqEscapes env q b color plies beta
             (getPseudoLegalCheckEscapes (board env) b color) (- INFTY (common env)) alpha of
        None \<Rightarrow> None
      | Some (Return r) \<Rightarrow> Some r
      | Some (Fallthrough (score, alpha1)) \<Rightarrow>
          if score = - INFTY (common env) then
            (let score' = - MATE_SCORE (common env) + sply + plies in
             if score' \<ge> beta then Some beta
             else if score' > alpha1 then Some score'
             else Some alpha1)
          else Some alpha1)"

text \<open>
  The two functions with a bound \<open>n\<close> on the depth of nested calls: \<open>None\<close> means that
  the bound was too small for the call to return.
\<close>

fun quiescence :: "nat \<Rightarrow> ('b, 't) Env \<Rightarrow> int \<Rightarrow> 'b QS"
  and checkQuiescence :: "nat \<Rightarrow> ('b, 't) Env \<Rightarrow> int \<Rightarrow> 'b QS" where
  "quiescence 0 env sply = (\<lambda>b color plies alpha beta. None)"
| "quiescence (Suc n) env sply =
     quiescence_body env (quiescence n env sply) (checkQuiescence n env sply)"
| "checkQuiescence 0 env sply = (\<lambda>b color plies alpha beta. None)"
| "checkQuiescence (Suc n) env sply =
     checkQuiescence_body env sply (quiescence n env sply)"

section \<open>Principal-variation search\<close>

text \<open>
  \<open>PVS\<close> reads and writes the search state, so it takes the state and returns the score
  with the new state. As for quiescence, the bodies are written over the function
  \<open>child\<close> that stands for the recursive calls of \<open>PVS\<close>.
\<close>

type_synonym ('b, 't) PVSfn =
  "'t Search \<Rightarrow> 'b \<Rightarrow> nat \<Rightarrow> int \<Rightarrow> int \<Rightarrow> int \<Rightarrow> (int \<times> 't Search) option"

text \<open>
  \<open>searchParams.ply++; score = -PVS(copy, color, depth, alpha, beta, &line); searchParams.ply--;\<close>
\<close>

definition negPVS ::
  "('b, 't) PVSfn \<Rightarrow> 't Search \<Rightarrow> 'b \<Rightarrow> nat \<Rightarrow> int \<Rightarrow> int \<Rightarrow> int \<Rightarrow>
     (int \<times> 't Search) option" where
  "negPVS child s copy color depth alpha beta =
     (case child (s\<lparr>ply := ply s + 1\<rparr>) copy color depth alpha beta of
        None \<Rightarrow> None
      | Some (r, s') \<Rightarrow> Some (- r, s'\<lparr>ply := ply s' - 1\<rparr>))"

text \<open>
  The search of one move (lines 497-513, and the same shape at 200-214 and 245-259): the
  first move with the full window at full depth, a later move with the null window at the
  reduced depth and, when its score falls strictly between \<open>alpha\<close> and \<open>beta\<close>, again
  with the full window at full depth. \<open>color\<close> is the side to move in \<open>copy\<close>.
\<close>

definition searchMove ::
  "('b, 't) PVSfn \<Rightarrow> 't Search \<Rightarrow> 'b \<Rightarrow> nat \<Rightarrow> int \<Rightarrow> int \<Rightarrow> int \<Rightarrow> int \<Rightarrow> bool \<Rightarrow>
     (int \<times> 't Search) option" where
  "searchMove child s copy color depth reduction alpha beta first =
     (if \<not> first then
        (case negPVS child s copy color (depth - 1 - reduction) (- alpha - 1) (- alpha) of
           None \<Rightarrow> None
         | Some (score, s1) \<Rightarrow>
             if alpha < score \<and> score < beta
               then negPVS child s1 copy color (depth - 1) (- beta) (- alpha)
             else Some (score, s1))
      else negPVS child s copy color (depth - 1) (- beta) (- alpha))"

subsection \<open>getBestMoveForSort\<close>

fun sortLoop ::
  "('b, 't) Env \<Rightarrow> ('b, 't) PVSfn \<Rightarrow> 'b \<Rightarrow> nat \<Rightarrow> int \<Rightarrow> Move list \<Rightarrow> nat \<Rightarrow> int \<Rightarrow> int \<Rightarrow>
     't Search \<Rightarrow> (int \<times> 't Search) option" where
  "sortLoop env child b color depth [] i alpha tempMove s = Some (tempMove, s)"
| "sortLoop env child b color depth (m # ms) i alpha tempMove s =
     (case doPseudoLegalMove (board env) b m color of
        None \<Rightarrow> sortLoop env child b color depth ms (Suc i) alpha tempMove s
      | Some copy \<Rightarrow>
          (case searchMove child s copy (color XOR 1) depth 0 alpha
                  (MATE_SCORE (common env)) (i = 0) of
             None \<Rightarrow> None
           | Some (score, s1) \<Rightarrow>
               if score > alpha
                 then sortLoop env child b color depth ms (Suc i) score (int i) s1
               else sortLoop env child b color depth ms (Suc i) alpha tempMove s1))"

definition getBestMoveForSort ::
  "('b, 't) Env \<Rightarrow> ('b, 't) PVSfn \<Rightarrow> 't Search \<Rightarrow> 'b \<Rightarrow> Move list \<Rightarrow> int \<Rightarrow>
     (int \<times> 't Search) option" where
  "getBestMoveForSort env child s b legalMoves depth =
     sortLoop env child b (getPlayerToMove (board env) b) depth legalMoves 0
       (- MATE_SCORE (common env)) (- 1) s"

subsection \<open>Tables\<close>

definition IID_DEPTHS :: "int list" where
  "IID_DEPTHS = [0,
     0,  0,  0,  0,  1,  1,  1,  2,  2,  2,
     3,  3,  3,  4,  4,  4,  5,  5,  5,  6,
     6,  6,  7,  7,  7,  8,  8,  8,  9,  9,
     9, 10, 10, 10, 11, 11, 11, 12, 12, 12,
    13, 13, 13, 14, 14, 14, 15, 15, 15, 16,
    16, 16, 17, 17, 17, 18, 18, 18, 19, 19,
    19, 20, 20, 20, 21, 21, 21, 22, 22, 22,
    23, 23, 23, 24, 24, 24, 25, 25, 25, 26,
    26, 26, 27, 27, 27, 28, 28, 28, 29, 29,
    29, 30, 30, 30, 30, 30, 30, 30, 30, 30,
    30, 30, 30, 30, 30, 30, 30, 30, 30, 30,
    30, 30, 30, 30, 30, 30, 30, 30, 30, 30,
    30, 30, 30, 30, 30, 30, 30]"

definition FUTILITY_MARGIN :: "Common \<Rightarrow> int list" where
  "FUTILITY_MARGIN c = [0,
     MAX_POS_SCORE c,
     MAX_POS_SCORE c + KNIGHT_VALUE c,
     MAX_POS_SCORE c + QUEEN_VALUE c]"

definition REVERSE_FUTILITY_MARGIN :: "Common \<Rightarrow> int list" where
  "REVERSE_FUTILITY_MARGIN c = [0,
     MAX_POS_SCORE c,
     MAX_POS_SCORE c + 2 * PAWN_VALUE c]"

subsection \<open>probeTT\<close>

text \<open>
  \<open>probeTT\<close> returns its result together with the two reference parameters \<open>hashed\<close>
  and \<open>alpha\<close> as it leaves them, and the state.
\<close>

definition probeTT ::
  "('b, 't) Env \<Rightarrow> ('b, 't) PVSfn \<Rightarrow> 't Search \<Rightarrow> 'b \<Rightarrow> nat \<Rightarrow> Move \<Rightarrow> int \<Rightarrow> int \<Rightarrow> int \<Rightarrow>
     (int \<times> Move \<times> int \<times> 't Search) option" where
  "probeTT env child s b color hashed depth alpha beta =
     (case ttGet env (transpositionTable s) b of
        None \<Rightarrow> Some (- INFTY (common env), hashed, alpha, s)
      | Some entry \<Rightarrow>
          let hashScore = e_score entry; nodeType = e_nodeType entry in
          if nodeType = ALL_NODE then
            (if e_depth entry \<ge> depth \<and> hashScore \<le> alpha
               then Some (alpha, hashed, alpha, s)
             else Some (- INFTY (common env), hashed, alpha, s))
          else
            let hashed' = e_m entry in
            if e_depth entry \<ge> depth \<and> nodeType = CUT_NODE \<and> hashScore \<ge> beta
              then Some (beta, hashed', alpha, s)
            else
              (case doHashMove (board env) b hashed' color of
                 Some copy \<Rightarrow>
                   (case negPVS child s copy (color XOR 1) (depth - 1) (- beta) (- alpha) of
                      None \<Rightarrow> None
                    | Some (score, s1) \<Rightarrow>
                        if score \<ge> beta then Some (beta, hashed', alpha, s1)
                        else if score > alpha
                          then Some (- INFTY (common env), hashed', score, s1)
                        else Some (- INFTY (common env), hashed', alpha, s1))
               | None \<Rightarrow>
                   Some (- INFTY (common env), NULL_MOVE, alpha,
                         s\<lparr>cerr := cerr s @ [Type1TTError hashed']\<rparr>)))"

subsection \<open>The node and its move loop\<close>

text \<open>The variables of a \<open>PVS\<close> call that stay fixed during its move loop.\<close>

record 'b Node =
  n_b :: 'b
  n_color :: nat
  n_depth :: int
  n_beta :: int
  n_prevAlpha :: int
  n_isPVNode :: bool
  n_isInCheck :: bool
  n_staticEval :: int

text \<open>Lines 450-452: read the clock and set the stop flag when the time limit is exceeded.\<close>

definition pollClock :: "('b, 't) Env \<Rightarrow> 't Search \<Rightarrow> 't Search" where
  "pollClock env s =
     (let timeSoFar = clock env (clockReads s);
          s1 = s\<lparr>clockReads := clockReads s + 1\<rparr>
      in if timeSoFar * ONE_SECOND (common env) > real (timeLimit s)
           then s1\<lparr>isStop := True\<rparr> else s1)"

text \<open>The futility condition of lines 462-464.\<close>

definition futile :: "('b, 't) Env \<Rightarrow> 'b Node \<Rightarrow> int \<Rightarrow> Move \<Rightarrow> bool" where
  "futile env nd alpha m \<longleftrightarrow>
     \<not> n_isPVNode nd
     \<and> (n_depth nd \<le> 3
        \<and> n_staticEval nd \<le> alpha - FUTILITY_MARGIN (common env) ! nat (n_depth nd))
     \<and> \<not> n_isInCheck nd \<and> \<not> isCapture (common env) m
     \<and> \<bar>alpha\<bar> < QUEEN_VALUE (common env)
     \<and> \<not> isPromotion (common env) m
     \<and> \<not> isCheckMove (board env) (n_b nd) m (n_color nd)"

text \<open>
  The late move reduction of lines 477-495. The sum of the two quotients is not negative,
  so the cast to \<open>int\<close> is the floor.
\<close>

definition lateMoveReduction ::
  "('b, 't) Env \<Rightarrow> 'b Node \<Rightarrow> 't Search \<Rightarrow> 'b \<Rightarrow> int \<Rightarrow> Move \<Rightarrow> nat \<Rightarrow> int" where
  "lateMoveReduction env nd s copy alpha m movesSearched =
     (if \<not> n_isPVNode nd \<and> \<not> n_isInCheck nd \<and> \<not> isCapture (common env) m
         \<and> n_depth nd \<ge> 3 \<and> movesSearched > 2 \<and> alpha \<le> n_prevAlpha nd
         \<and> m \<noteq> fst (killers s ! nat (ply s)) \<and> m \<noteq> snd (killers s ! nat (ply s))
         \<and> \<not> isPromotion (common env) m
         \<and> \<not> isInCheck (board env) copy (n_color nd XOR 1)
      then min (n_depth nd - 2)
               \<lfloor>(real_of_int (n_depth nd) - 3) / 4 + real movesSearched / 9.5\<rfloor>
      else 0)"

text \<open>\<open>historyTable[color][piece][sq] += d\<close>\<close>

definition historyAdd :: "int list list list \<Rightarrow> nat \<Rightarrow> nat \<Rightarrow> nat \<Rightarrow> int \<Rightarrow> int list list list" where
  "historyAdd h color piece sq d =
     h[color := (h ! color)[piece := (h ! color ! piece)[sq := h ! color ! piece ! sq + d]]]"

definition creditHistory :: "('b, 't) Env \<Rightarrow> 'b Node \<Rightarrow> Move \<Rightarrow> 't Search \<Rightarrow> 't Search" where
  "creditHistory env nd m s =
     s\<lparr>historyTable :=
         historyAdd (historyTable s) (n_color nd)
           (getPieceOnSquare (board env) (n_b nd) (n_color nd) (getStartSq (common env) m))
           (getEndSq (common env) m) (n_depth nd * n_depth nd)\<rparr>"

text \<open>The bookkeeping of a fail-high (lines 519-531).\<close>

definition recordFailHigh :: "('b, 't) Env \<Rightarrow> 'b Node \<Rightarrow> Move \<Rightarrow> 't Search \<Rightarrow> 't Search" where
  "recordFailHigh env nd m s =
     (let s1 = s\<lparr>transpositionTable :=
                   ttAdd env (transpositionTable s) (n_b nd) (n_depth nd) m (n_beta nd)
                     CUT_NODE (rootMoveNumber s)\<rparr>
      in if \<not> isCapture (common env) m then
           (let k = killers s1 ! nat (ply s1);
                s2 = (if m \<noteq> fst k
                        then s1\<lparr>killers := (killers s1)[nat (ply s1) := (m, fst k)]\<rparr>
                      else s1)
            in creditHistory env nd m s2)
         else s1)"

text \<open>
  The move loop (lines 447-540), carrying \<open>movesSearched\<close>, \<open>score\<close>, \<open>alpha\<close>,
  \<open>toHash\<close> and the state.
\<close>

function PVS_moves ::
  "('b, 't) Env \<Rightarrow> ('b, 't) PVSfn \<Rightarrow> 'b Node \<Rightarrow> Move list \<Rightarrow> int list \<Rightarrow> nat \<Rightarrow>
     nat \<Rightarrow> int \<Rightarrow> int \<Rightarrow> Move \<Rightarrow> 't Search \<Rightarrow>
     (int \<times> 't Search, int \<times> int \<times> Move \<times> 't Search) Flow option" where
  "PVS_moves env child nd moves scores i movesSearched score alpha toHash s =
     (case nextMove moves scores i of
        (m, moves', scores') \<Rightarrow>
          if m = NULL_MOVE then Some (Fallthrough (score, alpha, toHash, s))
          else if isStop (pollClock env s)
            then Some (Return (- INFTY (common env), pollClock env s))
          else if futile env nd alpha m
            then PVS_moves env child nd moves' scores' (Suc i) movesSearched alpha alpha toHash
                   (pollClock env s)
          else (case doPseudoLegalMove (board env) (n_b nd) m (n_color nd) of
                  None \<Rightarrow>
                    PVS_moves env child nd moves' scores' (Suc i) movesSearched score alpha
                      toHash (pollClock env s)
                | Some copy \<Rightarrow>
                    (case searchMove child (pollClock env s) copy (n_color nd XOR 1) (n_depth nd)
                            (lateMoveReduction env nd (pollClock env s) copy alpha m
                               movesSearched)
                            alpha (n_beta nd) (movesSearched = 0) of
                       None \<Rightarrow> None
                     | Some (score', s1) \<Rightarrow>
                         if score' \<ge> n_beta nd
                           then Some (Return (n_beta nd, recordFailHigh env nd m s1))
                         else PVS_moves env child nd moves' scores' (Suc i)
                                (Suc movesSearched) score'
                                (if score' > alpha then score' else alpha)
                                (if score' > alpha then m else toHash) s1)))"
  by pat_completeness auto
termination
  by (relation "measure (\<lambda>(env, child, nd, moves, scores, i, rest). length moves - i)")
     (auto simp: nextMove_def swap_def Let_def split: if_splits)

declare PVS_moves.simps [simp del]

text \<open>After the loop (lines 542-561).\<close>

definition PVS_finish ::
  "('b, 't) Env \<Rightarrow> 'b Node \<Rightarrow> (int \<times> 't Search, int \<times> int \<times> Move \<times> 't Search) Flow \<Rightarrow>
     int \<times> 't Search" where
  "PVS_finish env nd res =
     (case res of
        Return r \<Rightarrow> r
      | Fallthrough (score, alpha, toHash, s) \<Rightarrow>
          if score = - INFTY (common env)
            then (scoreMate (common env) s (n_isInCheck nd) (n_depth nd) alpha (n_beta nd), s)
          else if toHash \<noteq> NULL_MOVE \<and> n_prevAlpha nd < alpha \<and> alpha < n_beta nd then
            (let s1 = s\<lparr>transpositionTable :=
                          ttAdd env (transpositionTable s) (n_b nd) (n_depth nd) toHash alpha
                            PV_NODE (rootMoveNumber s)\<rparr>
             in (alpha, if \<not> isCapture (common env) toHash
                          then creditHistory env nd toHash s1 else s1))
          else if alpha \<le> n_prevAlpha nd then
            (alpha, s\<lparr>transpositionTable :=
                        ttAdd env (transpositionTable s) (n_b nd) (n_depth nd) NULL_MOVE alpha
                          ALL_NODE (rootMoveNumber s)\<rparr>)
          else (alpha, s))"

subsection \<open>Move scoring (lines 378-439)\<close>

definition quietScore :: "('b, 't) Env \<Rightarrow> 'b Node \<Rightarrow> 't Search \<Rightarrow> bool \<Rightarrow> Move \<Rightarrow> int" where
  "quietScore env nd s bySEE m =
     (if m = fst (killers s ! nat (ply s))
        then (if bySEE then 0 else PAWNS (common env) - KNIGHTS (common env))
      else if m = snd (killers s ! nat (ply s))
        then (if bySEE then - 1 else PAWNS (common env) - KNIGHTS (common env) - 1)
      else if getPromotion (common env) m = QUEENS (common env)
        then (if bySEE then MAX_POS_SCORE (common env) else 8 * ROOKS (common env))
      else - MATE_SCORE (common env)
           + historyTable s ! n_color nd
               ! getPieceOnSquare (board env) (n_b nd) (n_color nd) (getStartSq (common env) m)
               ! getEndSq (common env) m)"

text \<open>
  The first loop scores the captures at the head of the list and stops at the first move
  that is not a capture; the second loop scores every move from there on.
\<close>

definition scoreMoves :: "('b, 't) Env \<Rightarrow> 'b Node \<Rightarrow> 't Search \<Rightarrow> Move list \<Rightarrow> int list" where
  "scoreMoves env nd s legalMoves =
     (let bySEE = (n_depth nd \<ge> 3 \<or> n_isPVNode nd);
          captures = takeWhile (isCapture (common env)) legalMoves;
          others = dropWhile (isCapture (common env)) legalMoves
      in map (\<lambda>m. if bySEE then getSEE (board env) (n_b nd) (n_color nd) (getEndSq (common env) m)
                   else getMVVLVAScore (board env) (n_b nd) (n_color nd) m) captures
         @ map (quietScore env nd s bySEE) others)"

subsection \<open>The body of PVS\<close>

text \<open>Lines 441-561: the move loop and what follows it.\<close>

definition PVS_loop ::
  "('b, 't) Env \<Rightarrow> ('b, 't) PVSfn \<Rightarrow> 'b Node \<Rightarrow> Move \<Rightarrow> int \<Rightarrow> Move list \<Rightarrow> int list \<Rightarrow>
     't Search \<Rightarrow> (int \<times> 't Search) option" where
  "PVS_loop env child nd hashed alpha legalMoves scores s =
     map_option (PVS_finish env nd)
       (PVS_moves env child nd legalMoves scores 0 (if hashed = NULL_MOVE then 0 else 1)
          (- INFTY (common env)) alpha NULL_MOVE s)"

text \<open>
  Lines 359-439: move generation, removal of the hash move, scoring and internal iterative
  deepening; then the loop.
\<close>

definition PVS_fromMoves ::
  "('b, 't) Env \<Rightarrow> ('b, 't) PVSfn \<Rightarrow> 'b Node \<Rightarrow> Move \<Rightarrow> int \<Rightarrow> 't Search \<Rightarrow>
     (int \<times> 't Search) option" where
  "PVS_fromMoves env child nd hashed alpha s =
     (let legalMoves = (if n_isInCheck nd
                          then getPseudoLegalCheckEscapes (board env) (n_b nd) (n_color nd)
                        else getAllPseudoLegalMoves (board env) (n_b nd) (n_color nd)) in
      if length legalMoves = 0
        then Some (scoreMate (common env) s (n_isInCheck nd) (n_depth nd) alpha (n_beta nd), s)
      else
        let legalMoves1 = (if hashed \<noteq> NULL_MOVE then remove1 hashed legalMoves
                           else legalMoves);
            scores = scoreMoves env nd s legalMoves1 in
        if (n_depth nd \<ge> 3 \<or> n_isPVNode nd) \<and> n_depth nd \<ge> 5 \<and> hashed = NULL_MOVE then
          (case getBestMoveForSort env child s (n_b nd) legalMoves1
                  (IID_DEPTHS ! nat (n_depth nd)) of
             None \<Rightarrow> None
           | Some (bestIndex, s1) \<Rightarrow>
               if bestIndex = - 1
                 then Some (scoreMate (common env) s1 (n_isInCheck nd) (n_depth nd) alpha
                              (n_beta nd), s1)
               else PVS_loop env child nd hashed alpha legalMoves1
                      (scores[nat bestIndex := INFTY (common env)]) s1)
        else PVS_loop env child nd hashed alpha legalMoves1 scores s)"

text \<open>Lines 351-357: reverse futility pruning.\<close>

definition PVS_afterNull ::
  "('b, 't) Env \<Rightarrow> ('b, 't) PVSfn \<Rightarrow> 'b Node \<Rightarrow> Move \<Rightarrow> int \<Rightarrow> 't Search \<Rightarrow>
     (int \<times> 't Search) option" where
  "PVS_afterNull env child nd hashed alpha s =
     (if \<not> n_isPVNode nd \<and> \<not> n_isInCheck nd
         \<and> (n_depth nd \<le> 2
            \<and> n_staticEval nd - REVERSE_FUTILITY_MARGIN (common env) ! nat (n_depth nd)
                \<ge> n_beta nd)
         \<and> getNonPawnMaterial (board env) (n_b nd) (n_color nd) \<noteq> 0
        then Some (n_beta nd, s)
      else PVS_fromMoves env child nd hashed alpha s)"

text \<open>
  Lines 316-349: the null move. \<open>nullMoveTaken\<close> is the condition of line 322,
  \<open>nullMoveReduction\<close> the value of \<open>reduction\<close> after line 333; the division of two
  \<open>int\<close>s truncates. \<open>b.doNullMove()\<close> changes the caller's position in place and is
  called again to undo the move, so the rest of the node works on
  \<open>doNullMove (doNullMove b)\<close>.
\<close>

definition nullMoveTaken :: "('b, 't) Env \<Rightarrow> 'b Node \<Rightarrow> 't Search \<Rightarrow> bool" where
  "nullMoveTaken env nd s \<longleftrightarrow>
     n_depth nd \<ge> 3 \<and> \<not> n_isPVNode nd \<and> nullMoveCount s < 2
     \<and> n_staticEval nd \<ge> n_beta nd \<and> \<not> n_isInCheck nd
     \<and> getNonPawnMaterial (board env) (n_b nd) (n_color nd) \<noteq> 0"

definition nullMoveReduction :: "Common \<Rightarrow> int \<Rightarrow> int \<Rightarrow> int \<Rightarrow> int" where
  "nullMoveReduction c depth staticEval beta =
     (let reduction = (if depth \<ge> 11 then 4 else if depth \<ge> 6 then 3 else 2)
      in min (depth - 2) (reduction + (staticEval - beta) sdiv PAWN_VALUE c))"

definition PVS_fromNull ::
  "('b, 't) Env \<Rightarrow> ('b, 't) PVSfn \<Rightarrow> 'b Node \<Rightarrow> Move \<Rightarrow> int \<Rightarrow> 't Search \<Rightarrow>
     (int \<times> 't Search) option" where
  "PVS_fromNull env child nd hashed alpha s =
     (if nullMoveTaken env nd s then
        (case negPVS child (s\<lparr>nullMoveCount := nullMoveCount s + 1\<rparr>)
                (doNullMove (board env) (n_b nd)) (n_color nd XOR 1)
                (n_depth nd - 1
                   - nullMoveReduction (common env) (n_depth nd) (n_staticEval nd) (n_beta nd))
                (- n_beta nd) (- alpha) of
           None \<Rightarrow> None
         | Some (nullScore, s1) \<Rightarrow>
             if nullScore \<ge> n_beta nd
               then Some (n_beta nd, s1\<lparr>nullMoveCount := nullMoveCount s1 - 1\<rparr>)
             else PVS_afterNull env child
                    (nd\<lparr>n_b := doNullMove (board env) (doNullMove (board env) (n_b nd))\<rparr>)
                    hashed alpha (s1\<lparr>nullMoveCount := nullMoveCount s1 - 1\<rparr>))
      else PVS_afterNull env child nd hashed alpha s)"

text \<open>Lines 276-314, then the rest. \<open>qs\<close> is \<open>quiescence\<close>, given \<open>searchParams.ply\<close>.\<close>

definition PVS_body ::
  "('b, 't) Env \<Rightarrow> (int \<Rightarrow> 'b QS) \<Rightarrow> ('b, 't) PVSfn \<Rightarrow> ('b, 't) PVSfn" where
  "PVS_body env qs child s b color depth alpha beta =
     (if depth \<le> 0 then
        (case qs (ply s) b color 0 alpha beta of
           None \<Rightarrow> None
         | Some r \<Rightarrow> Some (r, s))
      else if isDraw (board env) b then
        Some (if 0 \<ge> beta then beta else if 0 > alpha then 0 else alpha, s)
      else
        (case probeTT env child s b color NULL_MOVE depth alpha beta of
           None \<Rightarrow> None
         | Some (hashScore, hashed, alpha1, s1) \<Rightarrow>
             if hashScore \<noteq> - INFTY (common env) then Some (hashScore, s1)
             else PVS_fromNull env child
                    \<lparr>n_b = b, n_color = color, n_depth = depth, n_beta = beta,
                     n_prevAlpha = alpha, n_isPVNode = (beta - alpha > 1),
                     n_isInCheck = isInCheck (board env) b color,
                     n_staticEval = (if color = WHITE (common env) then evaluate (board env) b
                                     else - evaluate (board env) b)\<rparr>
                    hashed alpha1 s1))"

text \<open>\<open>PVS\<close> with a bound \<open>n\<close> on the depth of nested calls.\<close>

primrec PVS :: "nat \<Rightarrow> ('b, 't) Env \<Rightarrow> ('b, 't) PVSfn" where
  "PVS 0 env = (\<lambda>s b color depth alpha beta. None)"
| "PVS (Suc n) env = PVS_body env (quiescence n env) (PVS n env)"

section \<open>The root and the iterative-deepening driver\<close>

text \<open>
  The loop of \<open>getBestMoveAtDepth\<close> (lines 190-221), carrying \<open>alpha\<close>, \<open>tempMove\<close>
  and the state. \<open>tempMove\<close> is an \<open>unsigned int\<close> initialised with -1 and read back
  into an \<open>int\<close> by the driver; it is modelled as an \<open>int\<close>.
\<close>

fun rootLoop ::
  "('b, 't) Env \<Rightarrow> ('b, 't) PVSfn \<Rightarrow> 'b \<Rightarrow> nat \<Rightarrow> int \<Rightarrow> Move list \<Rightarrow> nat \<Rightarrow> int \<Rightarrow> int \<Rightarrow>
     't Search \<Rightarrow> (int \<times> 't Search, int \<times> int \<times> 't Search) Flow option" where
  "rootLoop env pvs b color depth [] i alpha tempMove s = Some (Fallthrough (alpha, tempMove, s))"
| "rootLoop env pvs b color depth (m # ms) i alpha tempMove s =
     (if isStop s then Some (Return (tempMove, s))
      else
        (case searchMove pvs s (doMove (board env) b m color) (color XOR 1) depth 0 alpha
                (MATE_SCORE (common env)) (i = 0) of
           None \<Rightarrow> None
         | Some (score, s1) \<Rightarrow>
             if score > alpha
               then rootLoop env pvs b color depth ms (Suc i) score (int i) s1
             else rootLoop env pvs b color depth ms (Suc i) alpha tempMove s1))"

text \<open>
  \<open>getBestMoveAtDepth\<close> returns the index with the reference parameters \<open>bestScore\<close> and
  \<open>isMate\<close> as it leaves them, and the state.
\<close>

definition getBestMoveAtDepth ::
  "('b, 't) Env \<Rightarrow> ('b, 't) PVSfn \<Rightarrow> 't Search \<Rightarrow> 'b \<Rightarrow> Move list \<Rightarrow> int \<Rightarrow> int \<Rightarrow> bool \<Rightarrow>
     (int \<times> int \<times> bool \<times> 't Search) option" where
  "getBestMoveAtDepth env pvs s b legalMoves depth bestScore isMate =
     (case rootLoop env pvs b (getPlayerToMove (board env) b) depth legalMoves 0
             (- MATE_SCORE (common env)) (- 1) (reset (common env) s) of
        None \<Rightarrow> None
      | Some (Return (tempMove, s1)) \<Rightarrow> Some (tempMove, bestScore, isMate, s1)
      | Some (Fallthrough (alpha, tempMove, s1)) \<Rightarrow>
          Some (tempMove, alpha,
                (if alpha \<ge> MATE_SCORE (common env) - int (MAX_DEPTH (common env)) then True
                 else isMate), s1))"

text \<open>The search modes and time factors of timeman.h.\<close>

definition TIME :: int where "TIME = 1"
definition DEPTH :: int where "DEPTH = 2"
definition MOVETIME :: int where "MOVETIME = 4"
definition TIME_FACTOR :: real where "TIME_FACTOR = 0.85"
definition MAX_TIME_FACTOR :: real where "MAX_TIME_FACTOR = 4.0"

text \<open>Line 137: the time limit that \<open>getBestMove\<close> sets for a mode and a budget.\<close>

definition timeLimitFor :: "Common \<Rightarrow> int \<Rightarrow> int \<Rightarrow> nat" where
  "timeLimitFor c mode val =
     (if mode = TIME then nat \<lfloor>MAX_TIME_FACTOR * real_of_int val\<rfloor> else MAX_TIME c)"

text \<open>Lines 165-167: the condition under which the \<open>do\<close> loop goes round again.\<close>

definition continueDeepening :: "Common \<Rightarrow> int \<Rightarrow> int \<Rightarrow> real \<Rightarrow> int \<Rightarrow> bool" where
  "continueDeepening c mode val timeSoFar rootDepth \<longleftrightarrow>
     (mode = TIME \<and> timeSoFar * ONE_SECOND c < real_of_int val * TIME_FACTOR
        \<and> rootDepth \<le> int (MAX_DEPTH c))
     \<or> (mode = DEPTH \<and> rootDepth \<le> val)"

text \<open>
  The \<open>do\<close> loop of \<open>getBestMove\<close> (lines 145-167), carrying the move list, the best
  move, \<open>rootDepth\<close>, \<open>bestScore\<close>, \<open>isMate\<close> and the state. It returns the best move
  and \<open>rootDepth\<close> as the loop leaves them. The \<open>info\<close> line is not modelled.
\<close>

function deepen ::
  "('b, 't) Env \<Rightarrow> ('b, 't) PVSfn \<Rightarrow> 'b \<Rightarrow> int \<Rightarrow> int \<Rightarrow> Move list \<Rightarrow> Move \<Rightarrow> int \<Rightarrow> int \<Rightarrow>
     bool \<Rightarrow> 't Search \<Rightarrow> (Move \<times> int \<times> 't Search) option" where
  "deepen env pvs b mode val legalMoves bestMove rootDepth bestScore isMate s =
     (case getBestMoveAtDepth env pvs s b legalMoves rootDepth bestScore isMate of
        None \<Rightarrow> None
      | Some (bestMoveIndex, bestScore', isMate', s1) \<Rightarrow>
          if bestMoveIndex = - 1 then Some (bestMove, rootDepth, s1)
          else if isMate'
            then Some (swap legalMoves 0 (nat bestMoveIndex) ! 0, rootDepth,
                       s1\<lparr>clockReads := clockReads s1 + 1\<rparr>)
          else if continueDeepening (common env) mode val (clock env (clockReads s1))
                    (rootDepth + 1)
            then deepen env pvs b mode val (swap legalMoves 0 (nat bestMoveIndex))
                   (swap legalMoves 0 (nat bestMoveIndex) ! 0) (rootDepth + 1) bestScore' isMate'
                   (s1\<lparr>clockReads := clockReads s1 + 1\<rparr>)
          else Some (swap legalMoves 0 (nat bestMoveIndex) ! 0, rootDepth + 1,
                     s1\<lparr>clockReads := clockReads s1 + 1\<rparr>))"
  by pat_completeness auto
termination
  by (relation "measure (\<lambda>(env, pvs, b, mode, val, legalMoves, bestMove, rootDepth, rest).
                   nat (max (int (MAX_DEPTH (common env))) val + 1 - rootDepth))")
     (auto simp: continueDeepening_def)

declare deepen.simps [simp del]

text \<open>
  \<open>getBestMove\<close>. \<open>bestScore0\<close> is the value of the uninitialised local \<open>bestScore\<close>;
  \<open>rootMoveNumber\<close> is the move number cast to \<open>uint8_t\<close>. The result is the move
  written to \<open>*bestMove\<close>, the final \<open>rootDepth\<close> and the state.
\<close>

definition getBestMove ::
  "('b, 't) Env \<Rightarrow> ('b, 't) PVSfn \<Rightarrow> 't Search \<Rightarrow> 'b \<Rightarrow> int \<Rightarrow> int \<Rightarrow> int \<Rightarrow>
     (Move \<times> int \<times> 't Search) option" where
  "getBestMove env pvs s b mode val bestScore0 =
     (let s0 = (reset (common env) s)\<lparr>rootMoveNumber := getMoveNumber (board env) b mod 256\<rparr>;
          color = getPlayerToMove (board env) b;
          legalMoves = getAllLegalMoves (board env) b color;
          s1 = s0\<lparr>timeLimit := timeLimitFor (common env) mode val\<rparr>;
          s2 = s1\<lparr>clockReads := clockReads s1 + 1\<rparr>
      in case deepen env pvs b mode val legalMoves (legalMoves ! 0) 1 bestScore0 False s2 of
           None \<Rightarrow> None
         | Some (bestMove, rootDepth, s3) \<Rightarrow>
             Some (bestMove, rootDepth, (resetHistoryTable s3)\<lparr>isStop := True\<rparr>))"

section \<open>A small concrete instance\<close>

text \<open>
  An instance of the parameters on which the model can be run: positions are numbers, a
  position below 3 has the single quiet move 1, which leads to the next number, and the
  other positions have no move; nobody is ever in check and the evaluation is constant.
  The transposition table is a map from positions to entries that always replaces. The
  clock of \<open>toyEnv k\<close> shows 0 seconds at the first \<open>k\<close> readings and 10 seconds from
  then on.
\<close>

definition toyCommon :: Common where
  "toyCommon = \<lparr>MAX_DEPTH = 127, MATE_SCORE = 32766, INFTY = 32767, MAX_POS_SCORE = 120,
     PAWN_VALUE = 100, KNIGHT_VALUE = 320, QUEEN_VALUE = 950,
     PAWNS = 0, KNIGHTS = 1, ROOKS = 3, QUEENS = 4, WHITE = 0,
     MAX_TIME = 1000000000, ONE_SECOND = 1000,
     isCapture = (\<lambda>m. False), isPromotion = (\<lambda>m. False), getPromotion = (\<lambda>m. 0),
     getStartSq = (\<lambda>m. 0), getEndSq = (\<lambda>m. 0)\<rparr>"

definition toyBoard :: "nat BoardOps" where
  "toyBoard = \<lparr>isDraw = (\<lambda>b. False), isInCheck = (\<lambda>b c. False),
     evaluate = (\<lambda>b. - 1000), evaluateMaterial = (\<lambda>b. - 1000), evaluatePositional = (\<lambda>b. 0),
     getNonPawnMaterial = (\<lambda>b c. 1),
     getPseudoLegalCheckEscapes = (\<lambda>b c. []),
     getAllPseudoLegalMoves = (\<lambda>b c. if b < 3 then [1] else []),
     getPseudoLegalCaptures = (\<lambda>b c q. []),
     getPseudoLegalPromotions = (\<lambda>b c. []),
     getPseudoLegalChecks = (\<lambda>b c. []),
     getAllLegalMoves = (\<lambda>b c. if b < 3 then [1] else []),
     doPseudoLegalMove = (\<lambda>b m c. Some (Suc b)),
     doHashMove = (\<lambda>b m c. None),
     doMove = (\<lambda>b m c. Suc b),
     doNullMove = (\<lambda>b. b),
     getSEE = (\<lambda>b c sq. 0), getMVVLVAScore = (\<lambda>b c m. 0), getExchangeScore = (\<lambda>b c m. 0),
     valueOfPiece = (\<lambda>b p. 0), getPieceOnSquare = (\<lambda>b c sq. 0),
     isCheckMove = (\<lambda>b m c. False), getPlayerToMove = (\<lambda>b. b mod 2),
     getMoveNumber = (\<lambda>b. 1)\<rparr>"

definition toyEnv :: "nat \<Rightarrow> (nat, nat \<Rightarrow> HashEntry option) Env" where
  "toyEnv k = \<lparr>common = toyCommon, board = toyBoard,
     ttGet = (\<lambda>t b. t b),
     ttAdd = (\<lambda>t b d m sc nt age. t(b \<mapsto> \<lparr>e_m = m, e_depth = d, e_score = sc, e_nodeType = nt\<rparr>)),
     clock = (\<lambda>n. if n \<ge> k then 10 else 0)\<rparr>"

definition toyState :: "(nat \<Rightarrow> HashEntry option) Search" where
  "toyState = \<lparr>ply = 0, nullMoveCount = 0, timeLimit = 5000,
     killers = replicate 127 (NULL_MOVE, NULL_MOVE),
     historyTable = replicate 2 (replicate 6 (replicate 64 0)),
     rootMoveNumber = 1, transpositionTable = Map.empty, isStop = False, clockReads = 0,
     cerr = []\<rparr>"



section \<open>Properties of the move picker\<close>

lemma length_swap [simp]: "length (swap xs i j) = length xs"
  by (simp add: swap_def)

lemma fold_best:
  fixes scores :: "int list"
  assumes "fold (\<lambda>i (bestIndex, bestScore).
             if scores ! i > bestScore then (i, scores ! i) else (bestIndex, bestScore))
          [a ..< n] (bi, scores ! bi) = (k, v)"
    and "index \<le> bi" "bi < a" "a \<le> n"
    and "\<forall>j. index \<le> j \<and> j < a \<longrightarrow> scores ! j \<le> scores ! bi"
    and "\<forall>j. index \<le> j \<and> j < bi \<longrightarrow> scores ! j < scores ! bi"
  shows "v = scores ! k \<and> index \<le> k \<and> k < n
         \<and> (\<forall>j. index \<le> j \<and> j < n \<longrightarrow> scores ! j \<le> scores ! k)
         \<and> (\<forall>j. index \<le> j \<and> j < k \<longrightarrow> scores ! j < scores ! k)"
  using assms
proof (induction "n - a" arbitrary: a bi)
  case 0
  then show ?case by auto
next
  case (Suc d)
  then have an: "a < n" by simp
  then have upt: "[a ..< n] = a # [Suc a ..< n]" by (simp add: upt_conv_Cons)
  show ?case
  proof (cases "scores ! a > scores ! bi")
    case True
    have "fold (\<lambda>i (bestIndex, bestScore).
             if scores ! i > bestScore then (i, scores ! i) else (bestIndex, bestScore))
          [Suc a ..< n] (a, scores ! a) = (k, v)"
      using Suc.prems(1) True by (simp add: upt)
    moreover have "\<forall>j. index \<le> j \<and> j < Suc a \<longrightarrow> scores ! j \<le> scores ! a"
    proof (intro allI impI)
      fix j assume j: "index \<le> j \<and> j < Suc a"
      show "scores ! j \<le> scores ! a"
      proof (cases "j = a")
        case False
        with j have "scores ! j \<le> scores ! bi" using Suc.prems(5) by simp
        with True show ?thesis by simp
      qed simp
    qed
    moreover have "\<forall>j. index \<le> j \<and> j < a \<longrightarrow> scores ! j < scores ! a"
    proof (intro allI impI)
      fix j assume j: "index \<le> j \<and> j < a"
      then have "scores ! j \<le> scores ! bi" using Suc.prems(5) by simp
      with True show "scores ! j < scores ! a" by simp
    qed
    ultimately show ?thesis
      using Suc.hyps(1) [of "Suc a" a] Suc.hyps(2) Suc.prems(2,3) an by simp
  next
    case False
    have "fold (\<lambda>i (bestIndex, bestScore).
             if scores ! i > bestScore then (i, scores ! i) else (bestIndex, bestScore))
          [Suc a ..< n] (bi, scores ! bi) = (k, v)"
      using Suc.prems(1) False by (simp add: upt)
    moreover have "\<forall>j. index \<le> j \<and> j < Suc a \<longrightarrow> scores ! j \<le> scores ! bi"
      using Suc.prems(5) False by (auto simp: less_Suc_eq)
    ultimately show ?thesis
      using Suc.hyps(1) [of "Suc a" bi] Suc.hyps(2) Suc.prems(2,3,6) an by simp
  qed
qed

lemma findBest_spec:
  fixes scores :: "int list"
  assumes "index < n"
  shows "snd (findBest scores index n) = scores ! fst (findBest scores index n)
         \<and> index \<le> fst (findBest scores index n) \<and> fst (findBest scores index n) < n
         \<and> (\<forall>j. index \<le> j \<and> j < n \<longrightarrow> scores ! j \<le> scores ! fst (findBest scores index n))
         \<and> (\<forall>j. index \<le> j \<and> j < fst (findBest scores index n) \<longrightarrow>
                scores ! j < scores ! fst (findBest scores index n))"
proof -
  obtain k v where kv: "findBest scores index n = (k, v)" by (cases "findBest scores index n")
  have "v = scores ! k \<and> index \<le> k \<and> k < n
         \<and> (\<forall>j. index \<le> j \<and> j < n \<longrightarrow> scores ! j \<le> scores ! k)
         \<and> (\<forall>j. index \<le> j \<and> j < k \<longrightarrow> scores ! j < scores ! k)"
  proof (rule fold_best [where a = "index + 1" and bi = index and n = n])
    show "fold (\<lambda>i (bestIndex, bestScore).
             if scores ! i > bestScore then (i, scores ! i) else (bestIndex, bestScore))
          [index + 1 ..< n] (index, scores ! index) = (k, v)"
      using kv by (simp add: findBest_def)
    show "index + 1 \<le> n" using assms by simp
    show "\<forall>j. index \<le> j \<and> j < index + 1 \<longrightarrow> scores ! j \<le> scores ! index"
      by (auto simp: less_Suc_eq_le)
  qed simp_all
  then show ?thesis by (simp add: kv)
qed


lemma nth_swap:
  "i < length xs \<Longrightarrow> k < length xs \<Longrightarrow>
     swap xs k i ! j = (if j = i then xs ! k else if j = k then xs ! i else xs ! j)"
  by (auto simp: swap_def nth_list_update)

lemma nextMove_past_end:
  "index \<ge> length moves \<Longrightarrow> nextMove moves scores index = (NULL_MOVE, moves, scores)"
  by (simp add: nextMove_def)

lemma nextMove_in_range:
  assumes "length scores = length moves" "index < length moves"
  shows "\<exists>k. index \<le> k \<and> k < length moves
           \<and> (\<forall>j. index \<le> j \<and> j < length moves \<longrightarrow> scores ! j \<le> scores ! k)
           \<and> (\<forall>j. index \<le> j \<and> j < k \<longrightarrow> scores ! j < scores ! k)
           \<and> nextMove moves scores index = (moves ! k, swap moves k index, swap scores k index)
           \<and> swap moves k index ! index = moves ! k
           \<and> swap scores k index ! index = scores ! k"
proof -
  let ?k = "fst (findBest scores index (length moves))"
  note fb = findBest_spec [OF assms(2), of scores]
  have "nextMove moves scores index = (moves ! ?k, swap moves ?k index, swap scores ?k index)"
    using assms fb by (simp add: nextMove_def Let_def nth_swap)
  moreover have "swap moves ?k index ! index = moves ! ?k"
    using assms fb by (simp add: nth_swap)
  moreover have "swap scores ?k index ! index = scores ! ?k"
    using assms fb by (simp add: nth_swap)
  ultimately show ?thesis using fb by blast
qed






section \<open>Properties of scoreMate\<close>

text \<open>
  Claim C4. \<open>scoreMate(isInCheck, depth, alpha, beta)\<close> takes \<open>-MATE_SCORE + ply\<close>
  when in check and 0 otherwise, and returns \<open>beta\<close> if this score is at least
  \<open>beta\<close>, the score itself if it exceeds \<open>alpha\<close>, and \<open>alpha\<close> otherwise; for
  \<open>alpha \<le> beta\<close> this is the score clamped into \<open>[alpha, beta]\<close>.
\<close>

theorem scoreMate_clamps:
  "scoreMate c s inCheck depth alpha beta =
     (if (if inCheck then - MATE_SCORE c + ply s else 0) \<ge> beta then beta
      else if (if inCheck then - MATE_SCORE c + ply s else 0) > alpha
           then (if inCheck then - MATE_SCORE c + ply s else 0)
      else alpha)
   \<and> (alpha \<le> beta \<longrightarrow>
        scoreMate c s inCheck depth alpha beta =
          max alpha (min beta (if inCheck then - MATE_SCORE c + ply s else 0)))"
  by (simp add: scoreMate_def Let_def)

theorem scoreMate_clamps_witness:
  "(- 10 :: int) \<le> 10
   \<and> scoreMate toyCommon (toyState\<lparr>ply := 3\<rparr>) True 1 (- 10) 10 = - 10
   \<and> scoreMate toyCommon (toyState\<lparr>ply := 3\<rparr>) True 1 (- 32767) 32767 = - 32763
   \<and> scoreMate toyCommon (toyState\<lparr>ply := 3\<rparr>) False 1 (- 10) 10 = 0"
proof -
  have h: "(- 10 :: int) \<le> 10" by simp
  have g: "(- 32767 :: int) \<le> 32767" by simp
  have a: "scoreMate toyCommon (toyState\<lparr>ply := 3\<rparr>) True 1 (- 10) 10 = - 10"
    using scoreMate_clamps [of toyCommon "toyState\<lparr>ply := 3\<rparr>" True 1 "- 10" 10,
            THEN conjunct2, rule_format, OF h]
    by (simp add: toyCommon_def)
  have b: "scoreMate toyCommon (toyState\<lparr>ply := 3\<rparr>) True 1 (- 32767) 32767 = - 32763"
    using scoreMate_clamps [of toyCommon "toyState\<lparr>ply := 3\<rparr>" True 1 "- 32767" 32767,
            THEN conjunct2, rule_format, OF g]
    by (simp add: toyCommon_def)
  have c: "scoreMate toyCommon (toyState\<lparr>ply := 3\<rparr>) False 1 (- 10) 10 = 0"
    using scoreMate_clamps [of toyCommon "toyState\<lparr>ply := 3\<rparr>" False 1 "- 10" 10,
            THEN conjunct2, rule_format, OF h]
    by simp
  from h a b c show ?thesis by simp
qed

section \<open>Evaluation on the concrete instance\<close>

lemmas toy_defs = toyCommon_def toyBoard_def toyEnv_def toyState_def

lemmas pvs_defs = PVS_body_def probeTT_def PVS_fromNull_def PVS_afterNull_def PVS_fromMoves_def
  PVS_loop_def PVS_finish_def PVS_moves.simps nextMove_def findBest_def swap_def scoreMoves_def
  quietScore_def pollClock_def futile_def lateMoveReduction_def searchMove_def negPVS_def
  recordFailHigh_def creditHistory_def historyAdd_def nullMoveTaken_def scoreMate_def
  NULL_MOVE_def FUTILITY_MARGIN_def REVERSE_FUTILITY_MARGIN_def

lemmas qs_defs = quiescence_body_def checkQuiescence_body_def qsCaptures.simps

lemmas root_defs = getBestMove_def getBestMoveAtDepth_def deepen.simps reset_def
  resetHistoryTable_def timeLimitFor_def continueDeepening_def MOVETIME_def TIME_def DEPTH_def
  TIME_FACTOR_def MAX_TIME_FACTOR_def

section \<open>The driver\<close>



text \<open>
  Claim C9 says that mode \<open>MOVETIME\<close> has the budget of mode \<open>TIME\<close>. On the concrete
  instance, with the budget 1000 and a clock that stays at 0 for six readings,
  \<open>getBestMove\<close> in mode \<open>MOVETIME\<close> leaves its loop after the first iteration
  (\<open>rootDepth\<close> is 2) with the time limit \<open>MAX_TIME\<close>, where mode \<open>TIME\<close> runs three
  iterations with the time limit \<open>4 * 1000\<close>.
\<close>

theorem movetime_counterexample:
  "map_option (fst \<circ> snd)
       (getBestMove (toyEnv 6) (PVS (Suc (Suc (Suc (Suc 0)))) (toyEnv 6)) toyState 0 MOVETIME 1000 0)
     = Some 2
   \<and> map_option (timeLimit \<circ> snd \<circ> snd)
       (getBestMove (toyEnv 6) (PVS (Suc (Suc (Suc (Suc 0)))) (toyEnv 6)) toyState 0 MOVETIME 1000 0)
     = Some 1000000000
   \<and> map_option (fst \<circ> snd)
       (getBestMove (toyEnv 6) (PVS (Suc (Suc (Suc (Suc 0)))) (toyEnv 6)) toyState 0 TIME 1000 0)
     = Some 4
   \<and> map_option (timeLimit \<circ> snd \<circ> snd)
       (getBestMove (toyEnv 6) (PVS (Suc (Suc (Suc (Suc 0)))) (toyEnv 6)) toyState 0 TIME 1000 0)
     = Some 4000"
  by (simp add: toy_defs pvs_defs qs_defs root_defs)


text \<open>
  Claim C9 as the code has it: in mode \<open>MOVETIME\<close> the time limit is \<open>MAX_TIME\<close>, the
  loop condition is false whatever the time and the depth, and the \<open>do\<close> loop runs
  \<open>getBestMoveAtDepth\<close> exactly once.
\<close>

theorem movetime_amended:
  "timeLimitFor c MOVETIME v = MAX_TIME c
   \<and> \<not> continueDeepening c MOVETIME v timeSoFar rootDepth
   \<and> deepen env pvs b MOVETIME v legalMoves bestMove rootDepth bestScore isMate s
       = (case getBestMoveAtDepth env pvs s b legalMoves rootDepth bestScore isMate of
            None \<Rightarrow> None
          | Some (bestMoveIndex, bestScore', isMate', s1) \<Rightarrow>
              if bestMoveIndex = - 1 then Some (bestMove, rootDepth, s1)
              else Some (swap legalMoves 0 (nat bestMoveIndex) ! 0,
                         if isMate' then rootDepth else rootDepth + 1,
                         s1\<lparr>clockReads := clockReads s1 + 1\<rparr>))"
proof -
  have a: "timeLimitFor c MOVETIME v = MAX_TIME c"
    by (simp add: timeLimitFor_def MOVETIME_def TIME_def)
  have b: "\<not> continueDeepening c' MOVETIME v t d" for c' t d
    by (simp add: continueDeepening_def MOVETIME_def TIME_def DEPTH_def)
  show ?thesis
    by (subst deepen.simps) (auto simp: a b split: option.splits)
qed


section \<open>Null-move pruning\<close>





section \<open>The transposition-table probe\<close>

text \<open>
  Claim C6 says that an illegal stored move is always discarded and no score of the entry
  used. On the concrete instance, where no hash move is legal, a \<open>CUT\<close> entry of depth 5
  and score 100 makes \<open>probeTT\<close> at depth 2 with the window \<open>(-10, 10)\<close> return
  \<open>beta\<close>, with \<open>hashed\<close> left at the stored move 7 and nothing written to \<open>cerr\<close>:
  the cutoff comes before the legality check.
\<close>

theorem probeTT_cut_before_legality_counterexample:
  "doHashMove (board (toyEnv 9)) 0 7 0 = None
   \<and> probeTT (toyEnv 9) (PVS 0 (toyEnv 9))
       (toyState\<lparr>transpositionTable :=
          [0 \<mapsto> \<lparr>e_m = 7, e_depth = 5, e_score = 100, e_nodeType = CUT_NODE\<rparr>]\<rparr>)
       0 0 NULL_MOVE 2 (- 10) 10
     = Some (10, 7, - 10,
         toyState\<lparr>transpositionTable :=
          [0 \<mapsto> \<lparr>e_m = 7, e_depth = 5, e_score = 100, e_nodeType = CUT_NODE\<rparr>]\<rparr>)"
  by (simp add: toy_defs probeTT_def)

text \<open>
  Claim C6 as the code has it. On a hit with the entry \<open>e\<close>:
  \<^item> an \<open>ALL\<close> entry with \<open>e.depth \<ge> depth\<close> and \<open>e.score \<le> alpha\<close> makes \<open>probeTT\<close>
    return \<open>alpha\<close>;
  \<^item> a \<open>CUT\<close> entry with \<open>e.depth \<ge> depth\<close> and \<open>e.score \<ge> beta\<close> makes it return
    \<open>beta\<close>;
  \<^item> the score of a \<open>PV\<close> entry has no influence on what \<open>probeTT\<close> returns;
  \<^item> when neither cutoff applies to an entry that is not an \<open>ALL\<close> entry and its move is
    illegal, \<open>hashed\<close> is set to the null move, one diagnostic is written to \<open>cerr\<close>,
    \<open>alpha\<close> is unchanged and the result is \<open>-INFTY\<close>.
\<close>

theorem probeTT_on_a_hit:
  assumes "ttGet env (transpositionTable s) b = Some e"
  shows "(e_nodeType e = ALL_NODE \<and> e_depth e \<ge> depth \<and> e_score e \<le> alpha \<longrightarrow>
            probeTT env child s b color hashed depth alpha beta = Some (alpha, hashed, alpha, s))
       \<and> (e_nodeType e = CUT_NODE \<and> e_depth e \<ge> depth \<and> e_score e \<ge> beta \<longrightarrow>
            probeTT env child s b color hashed depth alpha beta = Some (beta, e_m e, alpha, s))
       \<and> (e_nodeType e = PV_NODE \<longrightarrow>
            probeTT env child s b color hashed depth alpha beta
              = probeTT (env\<lparr>ttGet := \<lambda>t p. Some (e\<lparr>e_score := x\<rparr>)\<rparr>) child s b color hashed
                  depth alpha beta)
       \<and> (e_nodeType e \<noteq> ALL_NODE
          \<and> \<not> (e_depth e \<ge> depth \<and> e_nodeType e = CUT_NODE \<and> e_score e \<ge> beta)
          \<and> doHashMove (board env) b (e_m e) color = None \<longrightarrow>
            probeTT env child s b color hashed depth alpha beta
              = Some (- INFTY (common env), NULL_MOVE, alpha,
                      s\<lparr>cerr := cerr s @ [Type1TTError (e_m e)]\<rparr>))"
proof (intro conjI impI)
  assume "e_nodeType e = PV_NODE"
  then show "probeTT env child s b color hashed depth alpha beta
              = probeTT (env\<lparr>ttGet := \<lambda>t p. Some (e\<lparr>e_score := x\<rparr>)\<rparr>) child s b color hashed
                  depth alpha beta"
    using assms by (auto simp: probeTT_def Let_def split: option.split)
qed (use assms in \<open>auto simp: probeTT_def Let_def\<close>)

theorem probeTT_on_a_hit_witness:
  "probeTT (toyEnv 9) (PVS 0 (toyEnv 9))
       (toyState\<lparr>transpositionTable :=
          [0 \<mapsto> \<lparr>e_m = 7, e_depth = 1, e_score = 100, e_nodeType = CUT_NODE\<rparr>]\<rparr>)
       0 0 NULL_MOVE 2 (- 10) 10
     = Some (- INFTY (common (toyEnv 9)), NULL_MOVE, - 10,
         toyState\<lparr>transpositionTable :=
          [0 \<mapsto> \<lparr>e_m = 7, e_depth = 1, e_score = 100, e_nodeType = CUT_NODE\<rparr>],
          cerr := [Type1TTError 7]\<rparr>)
   \<and> probeTT (toyEnv 9) (PVS 0 (toyEnv 9))
       (toyState\<lparr>transpositionTable :=
          [0 \<mapsto> \<lparr>e_m = NULL_MOVE, e_depth = 5, e_score = - 20, e_nodeType = ALL_NODE\<rparr>]\<rparr>)
       0 0 NULL_MOVE 2 (- 10) 10
     = Some (- 10, NULL_MOVE, - 10,
         toyState\<lparr>transpositionTable :=
          [0 \<mapsto> \<lparr>e_m = NULL_MOVE, e_depth = 5, e_score = - 20, e_nodeType = ALL_NODE\<rparr>]\<rparr>)
   \<and> probeTT (toyEnv 9) (PVS 0 (toyEnv 9))
       (toyState\<lparr>transpositionTable :=
          [0 \<mapsto> \<lparr>e_m = 7, e_depth = 5, e_score = 100, e_nodeType = CUT_NODE\<rparr>]\<rparr>)
       0 0 NULL_MOVE 2 (- 10) 10
     = Some (10, 7, - 10,
         toyState\<lparr>transpositionTable :=
          [0 \<mapsto> \<lparr>e_m = 7, e_depth = 5, e_score = 100, e_nodeType = CUT_NODE\<rparr>]\<rparr>)
   \<and> probeTT (toyEnv 9) (PVS 0 (toyEnv 9))
       (toyState\<lparr>transpositionTable :=
          [0 \<mapsto> \<lparr>e_m = 7, e_depth = 5, e_score = 100, e_nodeType = PV_NODE\<rparr>]\<rparr>)
       0 0 NULL_MOVE 2 (- 10) 10
     = probeTT (toyEnv 9\<lparr>ttGet := \<lambda>t p. Some \<lparr>e_m = 7, e_depth = 5, e_score = 3,
                                               e_nodeType = PV_NODE\<rparr>\<rparr>) (PVS 0 (toyEnv 9))
       (toyState\<lparr>transpositionTable :=
          [0 \<mapsto> \<lparr>e_m = 7, e_depth = 5, e_score = 100, e_nodeType = PV_NODE\<rparr>]\<rparr>)
       0 0 NULL_MOVE 2 (- 10) 10"
proof -
  let ?e1 = "\<lparr>e_m = 7, e_depth = 1, e_score = 100, e_nodeType = CUT_NODE\<rparr>"
  let ?e2 = "\<lparr>e_m = NULL_MOVE, e_depth = 5, e_score = - 20, e_nodeType = ALL_NODE\<rparr>"
  let ?e3 = "\<lparr>e_m = 7, e_depth = 5, e_score = 100, e_nodeType = CUT_NODE\<rparr>"
  let ?e4 = "\<lparr>e_m = 7, e_depth = 5, e_score = 100, e_nodeType = PV_NODE\<rparr>"
  have h: "ttGet (toyEnv 9) (transpositionTable (toyState\<lparr>transpositionTable := [0 \<mapsto> e]\<rparr>)) 0
             = Some e" for e
    by (simp add: toy_defs)
  have il: "doHashMove (board (toyEnv 9)) 0 7 0 = None" by (simp add: toy_defs)
  have "probeTT (toyEnv 9) (PVS 0 (toyEnv 9)) (toyState\<lparr>transpositionTable := [0 \<mapsto> ?e1]\<rparr>)
          0 0 NULL_MOVE 2 (- 10) 10
        = Some (- INFTY (common (toyEnv 9)), NULL_MOVE, - 10,
                toyState\<lparr>transpositionTable := [0 \<mapsto> ?e1],
                         cerr := cerr (toyState\<lparr>transpositionTable := [0 \<mapsto> ?e1]\<rparr>)
                                   @ [Type1TTError (e_m ?e1)]\<rparr>)"
    by (rule probeTT_on_a_hit [OF h, where depth = 2 and alpha = "- 10" and color = 0
            and beta = 10 and child = "PVS 0 (toyEnv 9)" and hashed = NULL_MOVE,
          THEN conjunct2, THEN conjunct2, THEN conjunct2, rule_format])
       (simp add: il)
  then have a: "probeTT (toyEnv 9) (PVS 0 (toyEnv 9))
          (toyState\<lparr>transpositionTable := [0 \<mapsto> ?e1]\<rparr>) 0 0 NULL_MOVE 2 (- 10) 10
        = Some (- INFTY (common (toyEnv 9)), NULL_MOVE, - 10,
                toyState\<lparr>transpositionTable := [0 \<mapsto> ?e1], cerr := [Type1TTError 7]\<rparr>)"
    by (simp add: toyState_def)
  have b: "probeTT (toyEnv 9) (PVS 0 (toyEnv 9))
          (toyState\<lparr>transpositionTable := [0 \<mapsto> ?e2]\<rparr>) 0 0 NULL_MOVE 2 (- 10) 10
        = Some (- 10, NULL_MOVE, - 10, toyState\<lparr>transpositionTable := [0 \<mapsto> ?e2]\<rparr>)"
    by (rule probeTT_on_a_hit [OF h, where depth = 2 and alpha = "- 10" and color = 0
            and beta = 10 and child = "PVS 0 (toyEnv 9)" and hashed = NULL_MOVE,
          THEN conjunct1, rule_format])
       simp
  have c: "probeTT (toyEnv 9) (PVS 0 (toyEnv 9))
          (toyState\<lparr>transpositionTable := [0 \<mapsto> ?e3]\<rparr>) 0 0 NULL_MOVE 2 (- 10) 10
        = Some (10, e_m ?e3, - 10, toyState\<lparr>transpositionTable := [0 \<mapsto> ?e3]\<rparr>)"
    by (rule probeTT_on_a_hit [OF h, where depth = 2 and alpha = "- 10" and color = 0
            and beta = 10 and child = "PVS 0 (toyEnv 9)" and hashed = NULL_MOVE,
          THEN conjunct2, THEN conjunct1, rule_format])
       simp
  have d: "probeTT (toyEnv 9) (PVS 0 (toyEnv 9))
          (toyState\<lparr>transpositionTable := [0 \<mapsto> ?e4]\<rparr>) 0 0 NULL_MOVE 2 (- 10) 10
        = probeTT (toyEnv 9\<lparr>ttGet := \<lambda>t p. Some (?e4\<lparr>e_score := 3\<rparr>)\<rparr>) (PVS 0 (toyEnv 9))
          (toyState\<lparr>transpositionTable := [0 \<mapsto> ?e4]\<rparr>) 0 0 NULL_MOVE 2 (- 10) 10"
    by (rule probeTT_on_a_hit [OF h, where depth = 2 and alpha = "- 10" and color = 0
            and beta = 10 and child = "PVS 0 (toyEnv 9)" and hashed = NULL_MOVE,
          THEN conjunct2, THEN conjunct2, THEN conjunct1, rule_format])
       simp
  from a b c d show ?thesis by simp
qed


section \<open>The range of the returned scores\<close>

text \<open>
  Every loop either returns \<open>beta\<close> or carries an \<open>alpha\<close> that stays below \<open>beta\<close> and
  never falls; this holds whatever the recursive calls return.
\<close>

lemma qsCaptures_range:
  "alpha < beta \<Longrightarrow>
   qsCaptures env q b color plies standPat beta moves scores i alpha = Some res \<Longrightarrow>
   (case res of Return r \<Rightarrow> r = beta | Fallthrough a \<Rightarrow> alpha \<le> a \<and> a < beta)"
proof (induction env q b color plies standPat beta moves scores i alpha
       rule: qsCaptures.induct)
  case (1 env q b color plies standPat beta moves scores i alpha)
  obtain m moves' scores' where nm: "nextMove moves scores i = (m, moves', scores')"
    by (cases "nextMove moves scores i") auto
  note IH = "1.IH" [OF nm [symmetric] refl]
  note eq = "1.prems"(2) [unfolded qsCaptures.simps [of env q b color plies standPat beta moves scores i alpha] nm, simplified]
  show ?case
  proof (cases "m = NULL_MOVE")
    case True
    with eq "1.prems"(1) show ?thesis by auto
  next
    case nn: False
    show ?thesis
    proof (cases "standPat
                    + valueOfPiece (board env) b
                        (getPieceOnSquare (board env) b (color XOR 1) (getEndSq (common env) m))
                  < alpha - MAX_POS_SCORE (common env)")
      case True
      with eq nn have "qsCaptures env q b color plies standPat beta moves' scores' (Suc i) alpha = Some res"
        by simp
      from IH(1) [OF nn True "1.prems"(1) this] show ?thesis .
    next
      case d: False
      show ?thesis
      proof (cases "getExchangeScore (board env) b color m < 0
                  \<and> getSEE (board env) b color (getEndSq (common env) m)
                      < - MAX_POS_SCORE (common env)")
        case True
        with eq nn d have "qsCaptures env q b color plies standPat beta moves' scores' (Suc i) alpha = Some res"
          by simp
        from IH(2) [OF nn d True "1.prems"(1) this] show ?thesis .
      next
        case see: False
        show ?thesis
        proof (cases "doPseudoLegalMove (board env) b m color")
          case None
          with eq nn d see have "qsCaptures env q b color plies standPat beta moves' scores' (Suc i) alpha = Some res"
            by auto
          from IH(3) [OF nn d see None "1.prems"(1) this] show ?thesis .
        next
          case (Some copy)
          show ?thesis
          proof (cases "q copy (color XOR 1) (plies + 1) (- beta) (- alpha)")
            case None
            with eq nn d see Some show ?thesis by auto
          next
            case qr: (Some r)
            show ?thesis
            proof (cases "- r \<ge> beta")
              case True
              with eq nn d see Some qr show ?thesis by auto
            next
              case False
              with eq nn d see Some qr
              have call: "qsCaptures env q b color plies standPat beta moves' scores' (Suc i)
                      (if - r > alpha then - r else alpha) = Some res" by auto
              have w: "(if - r > alpha then - r else alpha) < beta"
                using False "1.prems"(1) by auto
              from IH(4) [OF nn d see Some qr False w call] "1.prems"(1)
              show ?thesis by (auto split: Flow.splits if_splits)
            qed
          qed
        qed
      qed
    qed
  qed
qed


lemma qsPromotions_range:
  "alpha < beta \<Longrightarrow> qsPromotions env q b color plies beta ms alpha = Some res \<Longrightarrow>
   (case res of Return r \<Rightarrow> r = beta | Fallthrough a \<Rightarrow> alpha \<le> a \<and> a < beta)"
proof (induction ms arbitrary: alpha)
  case Nil
  then show ?case by auto
next
  case (Cons m ms)
  show ?case
  proof (cases "getSEE (board env) b color (getEndSq (common env) m) < 0")
    case True
    with Cons.prems show ?thesis using Cons.IH [of alpha] by simp
  next
    case see: False
    show ?thesis
    proof (cases "doPseudoLegalMove (board env) b m color")
      case None
      with see Cons.prems show ?thesis using Cons.IH [of alpha] by simp
    next
      case (Some copy)
      show ?thesis
      proof (cases "q copy (color XOR 1) (plies + 1) (- beta) (- alpha)")
        case None
        with see Some Cons.prems show ?thesis by simp
      next
        case qr: (Some r)
        show ?thesis
        proof (cases "- r \<ge> beta")
          case True
          with see Some qr Cons.prems show ?thesis by auto
        next
          case False
          with see Some qr Cons.prems
          have call: "qsPromotions env q b color plies beta ms
                        (if - r > alpha then - r else alpha) = Some res" by simp
          have w: "(if - r > alpha then - r else alpha) < beta"
            using False Cons.prems(1) by auto
          from Cons.IH [OF w call] show ?thesis by (auto split: Flow.splits if_splits)
        qed
      qed
    qed
  qed
qed

lemma qsChecks_range:
  "alpha < beta \<Longrightarrow> qsChecks env cq b color plies beta ms alpha = Some res \<Longrightarrow>
   (case res of Return r \<Rightarrow> r = beta | Fallthrough a \<Rightarrow> alpha \<le> a \<and> a < beta)"
proof (induction ms arbitrary: alpha)
  case Nil
  then show ?case by auto
next
  case (Cons m ms)
  show ?case
  proof (cases "doPseudoLegalMove (board env) b m color")
    case None
    with Cons.prems show ?thesis using Cons.IH [of alpha] by simp
  next
    case (Some copy)
    show ?thesis
    proof (cases "cq copy (color XOR 1) (plies + 1) (- beta) (- alpha)")
      case None
      with Some Cons.prems show ?thesis by simp
    next
      case qr: (Some r)
      show ?thesis
      proof (cases "- r \<ge> beta")
        case True
        with Some qr Cons.prems show ?thesis by auto
      next
        case False
        with Some qr Cons.prems
        have call: "qsChecks env cq b color plies beta ms
                      (if - r > alpha then - r else alpha) = Some res" by simp
        have w: "(if - r > alpha then - r else alpha) < beta"
          using False Cons.prems(1) by auto
        from Cons.IH [OF w call] show ?thesis by (auto split: Flow.splits if_splits)
      qed
    qed
  qed
qed

lemma cqEscapes_range:
  "alpha < beta \<Longrightarrow> cqEscapes env q b color plies beta ms score alpha = Some res \<Longrightarrow>
   (case res of Return r \<Rightarrow> r = beta | Fallthrough (sc, a) \<Rightarrow> alpha \<le> a \<and> a < beta)"
proof (induction ms arbitrary: alpha score)
  case Nil
  then show ?case by auto
next
  case (Cons m ms)
  show ?case
  proof (cases "doPseudoLegalMove (board env) b m color")
    case None
    with Cons.prems show ?thesis using Cons.IH [of alpha score] by simp
  next
    case (Some copy)
    show ?thesis
    proof (cases "q copy (color XOR 1) (plies + 1) (- beta) (- alpha)")
      case None
      with Some Cons.prems show ?thesis by simp
    next
      case qr: (Some r)
      show ?thesis
      proof (cases "- r \<ge> beta")
        case True
        with Some qr Cons.prems show ?thesis by auto
      next
        case False
        with Some qr Cons.prems
        have call: "cqEscapes env q b color plies beta ms (- r)
                      (if - r > alpha then - r else alpha) = Some res" by simp
        have w: "(if - r > alpha then - r else alpha) < beta"
          using False Cons.prems(1) by auto
        from Cons.IH [OF w call] show ?thesis by (auto split: Flow.splits if_splits)
      qed
    qed
  qed
qed

lemma checkQuiescence_body_range:
  assumes "alpha < beta" "checkQuiescence_body env sply q b color plies alpha beta = Some r"
  shows "alpha \<le> r \<and> r \<le> beta"
proof (cases "cqEscapes env q b color plies beta
                (getPseudoLegalCheckEscapes (board env) b color) (- INFTY (common env)) alpha")
  case None
  with assms(2) show ?thesis by (simp add: checkQuiescence_body_def)
next
  case (Some res)
  from cqEscapes_range [OF assms(1) Some] assms Some show ?thesis
    by (auto simp: checkQuiescence_body_def Let_def split: Flow.splits if_splits)
qed

lemma quiescence_body_range:
  assumes cq: "\<And>r. cq b color plies alpha beta = Some r \<Longrightarrow> alpha \<le> r \<and> r \<le> beta"
    and ab: "alpha < beta"
    and res: "quiescence_body env q cq b color plies alpha beta = Some r"
  shows "alpha \<le> r \<and> r \<le> beta"
proof (cases "isInCheck (board env) b color")
  case True
  with res cq show ?thesis by (simp add: quiescence_body_def)
next
  case nc: False
  define sp where "sp = (if color = WHITE (common env) then evaluateMaterial (board env) b
                        else - evaluateMaterial (board env) b)"
  define sp' where "sp' = sp + (if color = WHITE (common env)
                                      then evaluatePositional (board env) b
                                      else - evaluatePositional (board env) b)"
  define a1 where "a1 = (if alpha < sp' then sp' else alpha)"
  show ?thesis
  proof (cases "sp \<ge> beta + MAX_POS_SCORE (common env)
              \<or> sp < alpha - 2 * MAX_POS_SCORE (common env) - QUEEN_VALUE (common env)
              \<or> sp' \<ge> beta
              \<or> sp' < a1 - MAX_POS_SCORE (common env) - QUEEN_VALUE (common env)")
    case True
    with res nc ab show ?thesis
      unfolding quiescence_body_def Let_def sp_def [symmetric] sp'_def [symmetric] a1_def [symmetric]
      by (auto simp: a1_def split: if_splits)
  next
    case False
    then have a1: "alpha \<le> a1" "a1 < beta" using ab by (auto simp: a1_def)
    let ?caps = "getPseudoLegalCaptures (board env) b color False"
    from False res nc have r1:
      "(case qsCaptures env q b color plies sp' beta ?caps
               (map (getMVVLVAScore (board env) b color) ?caps) 0 a1 of
               None \<Rightarrow> None
             | Some (Return r) \<Rightarrow> Some r
             | Some (Fallthrough alpha2) \<Rightarrow>
                 (case qsPromotions env q b color plies beta
                         (getPseudoLegalPromotions (board env) b color) alpha2 of
                    None \<Rightarrow> None
                  | Some (Return r) \<Rightarrow> Some r
                  | Some (Fallthrough alpha3) \<Rightarrow>
                      if plies \<le> 0 then
                        (case qsChecks env cq b color plies beta
                                (getPseudoLegalChecks (board env) b color) alpha3 of
                           None \<Rightarrow> None
                         | Some (Return r) \<Rightarrow> Some r
                         | Some (Fallthrough alpha4) \<Rightarrow> Some alpha4)
                      else Some alpha3)) = Some r"
      unfolding quiescence_body_def Let_def sp_def [symmetric] sp'_def [symmetric] a1_def [symmetric]
      by (simp split: if_splits)
    then obtain res1 where c1: "qsCaptures env q b color plies sp' beta ?caps
               (map (getMVVLVAScore (board env) b color) ?caps) 0 a1 = Some res1"
      by (auto split: option.splits)
    note rg1 = qsCaptures_range [OF a1(2) c1]
    show ?thesis
    proof (cases res1)
      case (Return x)
      with r1 c1 rg1 a1 show ?thesis by auto
    next
      case (Fallthrough a2)
      with rg1 have a2: "a1 \<le> a2" "a2 < beta" by auto
      from r1 c1 Fallthrough obtain res2 where c2:
        "qsPromotions env q b color plies beta
            (getPseudoLegalPromotions (board env) b color) a2 = Some res2"
        by (auto split: option.splits)
      note rg2 = qsPromotions_range [OF a2(2) c2]
      show ?thesis
      proof (cases res2)
        case (Return x)
        with r1 c1 c2 \<open>res1 = Fallthrough a2\<close> rg2 a1 a2 show ?thesis by auto
      next
        case f3: (Fallthrough a3)
        with rg2 have a3: "a2 \<le> a3" "a3 < beta" by auto
        show ?thesis
        proof (cases "plies \<le> 0")
          case False
          with r1 c1 c2 \<open>res1 = Fallthrough a2\<close> f3 a1 a2 a3 show ?thesis by auto
        next
          case True
          with r1 c1 c2 \<open>res1 = Fallthrough a2\<close> f3 obtain res3 where c3:
            "qsChecks env cq b color plies beta
                (getPseudoLegalChecks (board env) b color) a3 = Some res3"
            by (auto split: option.splits)
          note rg3 = qsChecks_range [OF a3(2) c3]
          from r1 c1 c2 c3 \<open>res1 = Fallthrough a2\<close> f3 True rg3 a1 a2 a3
          show ?thesis by (auto split: Flow.splits)
        qed
      qed
    qed
  qed
qed

lemma checkQuiescence_range:
  "alpha < beta \<Longrightarrow> checkQuiescence n env sply b color plies alpha beta = Some r \<Longrightarrow>
   alpha \<le> r \<and> r \<le> beta"
  by (cases n) (auto dest: checkQuiescence_body_range)

lemma quiescence_range:
  "alpha < beta \<Longrightarrow> quiescence n env sply b color plies alpha beta = Some r \<Longrightarrow>
   alpha \<le> r \<and> r \<le> beta"
proof (cases n)
  case 0
  assume "quiescence n env sply b color plies alpha beta = Some r"
  with 0 show ?thesis by simp
next
  case (Suc m)
  assume ab: "alpha < beta" and "quiescence n env sply b color plies alpha beta = Some r"
  with Suc have "quiescence_body env (quiescence m env sply) (checkQuiescence m env sply)
                   b color plies alpha beta = Some r" by simp
  then show ?thesis
    by (rule quiescence_body_range [rotated 2]) (auto intro: ab dest: checkQuiescence_range [OF ab])
qed


lemma scoreMate_range:
  "alpha < beta \<Longrightarrow> alpha \<le> scoreMate c s inCheck depth alpha beta
     \<and> scoreMate c s inCheck depth alpha beta \<le> beta"
  by (simp add: scoreMate_def Let_def)

lemma PVS_moves_range:
  "alpha < n_beta nd \<Longrightarrow>
   PVS_moves env child nd moves scores i movesSearched score alpha toHash s = Some res \<Longrightarrow>
   (case res of
      Return (r, s') \<Rightarrow> r = n_beta nd \<or> (r = - INFTY (common env) \<and> isStop s')
    | Fallthrough (sc, a, th, s') \<Rightarrow> alpha \<le> a \<and> a < n_beta nd)"
proof (induction env child nd moves scores i movesSearched score alpha toHash s
       rule: PVS_moves.induct)
  case (1 env child nd moves scores i movesSearched score alpha toHash s)
  obtain m moves' scores' where nm: "nextMove moves scores i = (m, moves', scores')"
    by (cases "nextMove moves scores i") auto
  note IH = "1.IH" [OF nm [symmetric] refl]
  note eq = "1.prems"(2) [unfolded PVS_moves.simps [of env child nd moves scores i movesSearched
                score alpha toHash s] nm, simplified]
  show ?case
  proof (cases "m = NULL_MOVE")
    case True
    with eq "1.prems"(1) show ?thesis by auto
  next
    case nn: False
    show ?thesis
    proof (cases "isStop (pollClock env s)")
      case True
      with eq nn show ?thesis by auto
    next
      case ns: False
      show ?thesis
      proof (cases "futile env nd alpha m")
        case True
        with eq nn ns have "PVS_moves env child nd moves' scores' (Suc i) movesSearched alpha alpha
                              toHash (pollClock env s) = Some res" by simp
        from IH(1) [OF nn ns True "1.prems"(1) this] show ?thesis .
      next
        case nf: False
        show ?thesis
        proof (cases "doPseudoLegalMove (board env) (n_b nd) m (n_color nd)")
          case None
          with eq nn ns nf have "PVS_moves env child nd moves' scores' (Suc i) movesSearched score
                                   alpha toHash (pollClock env s) = Some res" by simp
          from IH(2) [OF nn ns nf None "1.prems"(1) this] show ?thesis .
        next
          case (Some copy)
          show ?thesis
          proof (cases "searchMove child (pollClock env s) copy (n_color nd XOR 1) (n_depth nd)
                            (lateMoveReduction env nd (pollClock env s) copy alpha m
                               movesSearched)
                            alpha (n_beta nd) (movesSearched = 0)")
            case None
            with eq nn ns nf Some show ?thesis by simp
          next
            case sm: (Some p)
            obtain score' s1 where p: "p = (score', s1)" by (cases p)
            show ?thesis
            proof (cases "score' \<ge> n_beta nd")
              case True
              with eq nn ns nf Some sm p show ?thesis by auto
            next
              case False
              with eq nn ns nf Some sm p
              have call: "PVS_moves env child nd moves' scores' (Suc i)
                                (Suc movesSearched) score'
                                (if score' > alpha then score' else alpha)
                                (if score' > alpha then m else toHash) s1 = Some res" by simp
              have w: "(if score' > alpha then score' else alpha) < n_beta nd"
                using False "1.prems"(1) by auto
              from IH(3) [OF nn ns nf Some sm p [symmetric] False w call]
              show ?thesis by (auto split: Flow.splits if_splits)
            qed
          qed
        qed
      qed
    qed
  qed
qed

lemma PVS_loop_range:
  assumes "alpha < n_beta nd"
    and "PVS_loop env child nd hashed alpha legalMoves scores s = Some (r, s')"
  shows "(alpha \<le> r \<and> r \<le> n_beta nd) \<or> (r = - INFTY (common env) \<and> isStop s')"
proof -
  from assms(2) obtain res where
    res: "PVS_moves env child nd legalMoves scores 0 (if hashed = NULL_MOVE then 0 else 1)
            (- INFTY (common env)) alpha NULL_MOVE s = Some res"
    and fin: "PVS_finish env nd res = (r, s')"
    by (auto simp: PVS_loop_def)
  note rg = PVS_moves_range [OF assms(1) res]
  show ?thesis
  proof (cases res)
    case (Return x)
    with rg fin assms(1) show ?thesis by (auto simp: PVS_finish_def)
  next
    case (Fallthrough y)
    obtain sc a th s2 where y: "y = (sc, a, th, s2)" by (cases y)
    with rg Fallthrough have a: "alpha \<le> a" "a < n_beta nd" by auto
    from scoreMate_range [OF a(2), of "common env" s2 "n_isInCheck nd" "n_depth nd"]
      a fin Fallthrough y show ?thesis
      by (auto simp: PVS_finish_def Let_def split: if_splits)
  qed
qed

lemma PVS_fromMoves_range:
  assumes "alpha < n_beta nd"
    and "PVS_fromMoves env child nd hashed alpha s = Some (r, s')"
  shows "(alpha \<le> r \<and> r \<le> n_beta nd) \<or> (r = - INFTY (common env) \<and> isStop s')"
proof -
  from assms(2) have
    "r = scoreMate (common env) s' (n_isInCheck nd) (n_depth nd) alpha (n_beta nd)
     \<or> (\<exists>ms sc t. PVS_loop env child nd hashed alpha ms sc t = Some (r, s'))"
    by (auto simp: PVS_fromMoves_def Let_def split: if_splits option.splits)
  then show ?thesis
  proof
    assume "r = scoreMate (common env) s' (n_isInCheck nd) (n_depth nd) alpha (n_beta nd)"
    then show ?thesis
      using scoreMate_range [OF assms(1), of "common env" s' "n_isInCheck nd" "n_depth nd"]
      by simp
  next
    assume "\<exists>ms sc t. PVS_loop env child nd hashed alpha ms sc t = Some (r, s')"
    then show ?thesis using PVS_loop_range [OF assms(1)] by blast
  qed
qed

lemma PVS_afterNull_range:
  assumes "alpha < n_beta nd"
    and "PVS_afterNull env child nd hashed alpha s = Some (r, s')"
  shows "(alpha \<le> r \<and> r \<le> n_beta nd) \<or> (r = - INFTY (common env) \<and> isStop s')"
proof -
  from assms(2) have
    "r = n_beta nd \<or> PVS_fromMoves env child nd hashed alpha s = Some (r, s')"
    by (auto simp: PVS_afterNull_def split: if_splits)
  then show ?thesis
  proof
    assume "r = n_beta nd"
    with assms(1) show ?thesis by simp
  next
    assume "PVS_fromMoves env child nd hashed alpha s = Some (r, s')"
    then show ?thesis by (rule PVS_fromMoves_range [OF assms(1)])
  qed
qed

lemma PVS_fromNull_range:
  assumes "alpha < n_beta nd"
    and "PVS_fromNull env child nd hashed alpha s = Some (r, s')"
  shows "(alpha \<le> r \<and> r \<le> n_beta nd) \<or> (r = - INFTY (common env) \<and> isStop s')"
proof -
  let ?nd = "nd\<lparr>n_b := doNullMove (board env) (doNullMove (board env) (n_b nd))\<rparr>"
  have ab: "alpha < n_beta ?nd" using assms(1) by simp
  from assms(2) have
    "r = n_beta nd \<or> PVS_afterNull env child nd hashed alpha s = Some (r, s')
     \<or> (\<exists>t. PVS_afterNull env child ?nd hashed alpha t = Some (r, s'))"
    by (auto simp: PVS_fromNull_def split: if_splits option.splits)
  then consider "r = n_beta nd" | "PVS_afterNull env child nd hashed alpha s = Some (r, s')"
    | t where "PVS_afterNull env child ?nd hashed alpha t = Some (r, s')" by blast
  then show ?thesis
  proof cases
    case 1
    with assms(1) show ?thesis by simp
  next
    case 2
    then show ?thesis by (rule PVS_afterNull_range [OF assms(1)])
  next
    case 3
    from PVS_afterNull_range [OF ab 3] show ?thesis by simp
  qed
qed

lemma probeTT_range:
  assumes "alpha < beta"
    and "probeTT env child s b color hashed depth alpha beta = Some (hs, hashed', alpha1, s1)"
  shows "(hs = alpha \<or> hs = beta \<or> hs = - INFTY (common env)) \<and> alpha \<le> alpha1 \<and> alpha1 < beta"
  using assms
  by (auto simp: probeTT_def Let_def split: option.splits if_splits)

lemma PVS_body_range:
  assumes qs: "\<And>r. qs (ply s) b color 0 alpha beta = Some r \<Longrightarrow> alpha \<le> r \<and> r \<le> beta"
    and ab: "alpha < beta"
    and res: "PVS_body env qs child s b color depth alpha beta = Some (r, s')"
  shows "(alpha \<le> r \<and> r \<le> beta) \<or> (r = - INFTY (common env) \<and> isStop s')"
proof (cases "depth \<le> 0")
  case True
  with res qs show ?thesis by (auto simp: PVS_body_def split: option.splits)
next
  case d: False
  show ?thesis
  proof (cases "isDraw (board env) b")
    case True
    with d res ab show ?thesis by (auto simp: PVS_body_def split: if_splits)
  next
    case nd: False
    from d nd res obtain hs hashed alpha1 s1 where
      pr: "probeTT env child s b color NULL_MOVE depth alpha beta = Some (hs, hashed, alpha1, s1)"
      by (auto simp: PVS_body_def split: option.splits)
    note rg = probeTT_range [OF ab pr]
    show ?thesis
    proof (cases "hs \<noteq> - INFTY (common env)")
      case True
      with d nd res pr rg ab show ?thesis by (auto simp: PVS_body_def)
    next
      case False
      let ?nd = "\<lparr>n_b = b, n_color = color, n_depth = depth, n_beta = beta,
                     n_prevAlpha = alpha, n_isPVNode = (beta - alpha > 1),
                     n_isInCheck = isInCheck (board env) b color,
                     n_staticEval = (if color = WHITE (common env) then evaluate (board env) b
                                     else - evaluate (board env) b)\<rparr>"
      from False d nd res pr have "PVS_fromNull env child ?nd hashed alpha1 s1 = Some (r, s')"
        by (simp add: PVS_body_def)
      moreover have "alpha1 < n_beta ?nd" using rg by simp
      ultimately have "(alpha1 \<le> r \<and> r \<le> n_beta ?nd) \<or> (r = - INFTY (common env) \<and> isStop s')"
        by (rule PVS_fromNull_range [rotated])
      with rg show ?thesis by auto
    qed
  qed
qed

text \<open>
  Claim C1 says that \<open>PVS\<close> always returns a score between \<open>alpha\<close> and \<open>beta\<close>, also
  when the stop flag becomes set during the call. On the concrete instance with a clock
  that exceeds the time limit at its first reading, \<open>PVS\<close> at depth 1 with the window
  \<open>(-10, 10)\<close> finds the time limit exceeded at its first move, sets the stop flag and
  returns \<open>-INFTY = -32767\<close>, which is below \<open>alpha\<close>.
\<close>

theorem fail_hard_counterexample:
  "(- 10 :: int) < 10
   \<and> map_option fst (PVS (Suc (Suc 0)) (toyEnv 0) (toyState\<lparr>ply := 1\<rparr>) 1 1 1 (- 10) 10)
       = Some (- 32767)
   \<and> \<not> (- 10 \<le> (- 32767 :: int))"
  by (simp add: toy_defs pvs_defs)

text \<open>
  Claim C1 as the code has it. For \<open>alpha < beta\<close>, a call of \<open>quiescence\<close> or of
  \<open>checkQuiescence\<close> that returns, returns a score \<open>r\<close> with \<open>alpha \<le> r \<le> beta\<close>; a
  call of \<open>PVS\<close> that returns, returns such a score or else returns \<open>-INFTY\<close> with the
  stop flag set.
\<close>

theorem fail_hard_unless_stopped:
  assumes "alpha < beta"
  shows "(quiescence n env sply b color plies alpha beta = Some r \<longrightarrow> alpha \<le> r \<and> r \<le> beta)
       \<and> (checkQuiescence n env sply b color plies alpha beta = Some r \<longrightarrow>
            alpha \<le> r \<and> r \<le> beta)
       \<and> (PVS n env s b color depth alpha beta = Some (r, s') \<longrightarrow>
            (alpha \<le> r \<and> r \<le> beta) \<or> (r = - INFTY (common env) \<and> isStop s'))"
proof -
  have q: "alpha \<le> r \<and> r \<le> beta"
    if "quiescence n env sply b color plies alpha beta = Some r"
    using that by (rule quiescence_range [OF assms])
  have cq: "alpha \<le> r \<and> r \<le> beta"
    if "checkQuiescence n env sply b color plies alpha beta = Some r"
    using that by (rule checkQuiescence_range [OF assms])
  have p: "(alpha \<le> r \<and> r \<le> beta) \<or> (r = - INFTY (common env) \<and> isStop s')"
    if res: "PVS n env s b color depth alpha beta = Some (r, s')"
  proof (cases n)
    case 0
    with res show ?thesis by simp
  next
    case (Suc m)
    with res have body: "PVS_body env (quiescence m env) (PVS m env) s b color depth alpha beta
                     = Some (r, s')" by simp
    have qs: "alpha \<le> x \<and> x \<le> beta"
      if "quiescence m env (ply s) b color 0 alpha beta = Some x" for x
      using that by (rule quiescence_range [OF assms])
    from qs assms body show ?thesis by (rule PVS_body_range)
  qed
  from q cq p show ?thesis by blast
qed

theorem fail_hard_unless_stopped_witness:
  "(- 10 :: int) < 10
   \<and> quiescence (Suc (Suc 0)) (toyEnv 9) 1 1 1 0 (- 10) 10 = Some 10
   \<and> map_option fst (PVS (Suc (Suc (Suc 0))) (toyEnv 1) toyState 0 0 2 (- 10) 10) = Some 10
   \<and> (- 10 :: int) \<le> 10 \<and> (10 :: int) \<le> 10"
proof -
  have h: "(- 10 :: int) < 10" by simp
  have q: "quiescence (Suc (Suc 0)) (toyEnv 9) 1 1 1 0 (- 10) 10 = Some 10"
    by (simp add: toy_defs qs_defs nextMove_def)
  have p: "map_option fst (PVS (Suc (Suc (Suc 0))) (toyEnv 1) toyState 0 0 2 (- 10) 10) = Some 10"
    by (simp add: toy_defs pvs_defs)
  from fail_hard_unless_stopped [OF h, THEN conjunct1, rule_format, OF q]
  have "(- 10 :: int) \<le> 10 \<and> (10 :: int) \<le> 10" .
  with h q p show ?thesis by simp
qed


section \<open>A move loop that searches no move\<close>

lemma set_drop_nth: "set (drop i xs) = (\<lambda>j. xs ! j) ` {i ..< length xs}"
proof -
  have "drop i xs = drop i (map (\<lambda>j. xs ! j) [0 ..< length xs])" by (simp add: map_nth)
  also have "\<dots> = map (\<lambda>j. xs ! j) [i ..< length xs]" by (simp add: drop_map)
  finally show ?thesis by simp
qed

lemma set_drop_swap:
  assumes "i \<le> k" "k < length xs"
  shows "set (drop i (swap xs k i)) = set (drop i xs)"
proof -
  have i: "i < length xs" using assms by simp
  show ?thesis
  proof (intro equalityI subsetI)
    fix x assume "x \<in> set (drop i (swap xs k i))"
    then obtain j where j: "i \<le> j" "j < length xs" "x = swap xs k i ! j"
      by (auto simp: set_drop_nth)
    then have "x = xs ! (if j = i then k else if j = k then i else j)"
      using i assms(2) by (simp add: nth_swap)
    moreover have "i \<le> (if j = i then k else if j = k then i else j)"
      "(if j = i then k else if j = k then i else j) < length xs"
      using j assms i by auto
    ultimately show "x \<in> set (drop i xs)" unfolding set_drop_nth by (metis atLeastLessThan_iff imageI)
  next
    fix x assume "x \<in> set (drop i xs)"
    then obtain j where j: "i \<le> j" "j < length xs" "x = xs ! j"
      by (auto simp: set_drop_nth)
    then have "x = swap xs k i ! (if j = i then k else if j = k then i else j)"
      using i assms(2) by (auto simp: nth_swap)
    moreover have "i \<le> (if j = i then k else if j = k then i else j)"
      "(if j = i then k else if j = k then i else j) < length (swap xs k i)"
      using j assms i by auto
    ultimately show "x \<in> set (drop i (swap xs k i))"
      unfolding set_drop_nth by (metis atLeastLessThan_iff imageI)
  qed
qed

lemma nextMove_step:
  assumes "length scores = length moves" "i < length moves"
    "nextMove moves scores i = (m, moves', scores')"
  shows "length moves' = length moves \<and> length scores' = length moves'
       \<and> set (drop i moves) = insert m (set (drop (Suc i) moves'))"
proof -
  from nextMove_in_range [OF assms(1,2)] assms(3) obtain k where
    k: "i \<le> k" "k < length moves" "m = moves ! k" "moves' = swap moves k i"
       "scores' = swap scores k i" "swap moves k i ! i = moves ! k"
    by auto
  have "drop i moves' = moves' ! i # drop (Suc i) moves'"
    using assms(2) k(4) by (simp add: Cons_nth_drop_Suc)
  then have "set (drop i moves') = insert m (set (drop (Suc i) moves'))"
    using k by simp
  with set_drop_swap [OF k(1,2)] k assms(1) show ?thesis by simp
qed

lemma pollClock_in_time:
  assumes "\<forall>n. \<not> clock env n * ONE_SECOND (common env) > real (timeLimit s)"
  shows "pollClock env s = s\<lparr>clockReads := clockReads s + 1\<rparr>"
  using assms by (simp add: pollClock_def Let_def)

lemma PVS_moves_none_searched:
  assumes "\<forall>m \<in> set (drop i moves). futile env nd alpha m
                \<or> doPseudoLegalMove (board env) (n_b nd) m (n_color nd) = None"
    and "NULL_MOVE \<notin> set (drop i moves)"
    and "\<forall>n. \<not> clock env n * ONE_SECOND (common env) > real (timeLimit s)"
    and "\<not> isStop s"
    and "length scores = length moves"
  shows "\<exists>s'. PVS_moves env child nd moves scores i movesSearched score alpha toHash s
              = Some (Fallthrough
                  (if \<exists>m \<in> set (drop i moves). futile env nd alpha m then alpha else score,
                   alpha, toHash, s'))
            \<and> ply s' = ply s
            \<and> transpositionTable s' = transpositionTable s
            \<and> killers s' = killers s \<and> historyTable s' = historyTable s"
  using assms
proof (induction "length moves - i" arbitrary: i moves scores score s)
  case 0
  then have "nextMove moves scores i = (NULL_MOVE, moves, scores)"
    by (simp add: nextMove_past_end)
  with 0 show ?case by (subst PVS_moves.simps) simp
next
  case (Suc d)
  then have il: "i < length moves" by simp
  obtain m moves' scores' where nm: "nextMove moves scores i = (m, moves', scores')"
    by (cases "nextMove moves scores i") auto
  note st = nextMove_step [OF Suc.prems(5) il nm]
  have mset: "m \<in> set (drop i moves)" using st by simp
  then have nn: "m \<noteq> NULL_MOVE" using Suc.prems(2) by auto
  let ?s = "pollClock env s"
  have pc: "?s = s\<lparr>clockReads := clockReads s + 1\<rparr>"
    by (rule pollClock_in_time [OF Suc.prems(3)])
  have ns: "\<not> isStop ?s" using Suc.prems(4) pc by simp
  have sub: "set (drop (Suc i) moves') \<subseteq> set (drop i moves)" using st by auto
  have p1: "\<forall>m \<in> set (drop (Suc i) moves'). futile env nd alpha m
                \<or> doPseudoLegalMove (board env) (n_b nd) m (n_color nd) = None"
    using Suc.prems(1) sub by auto
  have p2: "NULL_MOVE \<notin> set (drop (Suc i) moves')" using Suc.prems(2) sub by auto
  have p3: "\<forall>n. \<not> clock env n * ONE_SECOND (common env) > real (timeLimit ?s)"
    using Suc.prems(3) pc by simp
  have d: "d = length moves' - Suc i" using Suc.hyps(2) st by simp
  have len: "length scores' = length moves'" using st by simp
  note IH = Suc.hyps(1) [OF d p1 p2 p3 ns len]
  show ?case
  proof (cases "futile env nd alpha m")
    case True
    from IH [of alpha] obtain s' where
      r: "PVS_moves env child nd moves' scores' (Suc i) movesSearched alpha alpha toHash ?s
            = Some (Fallthrough (alpha, alpha, toHash, s'))"
      and fr: "ply s' = ply ?s" "transpositionTable s' = transpositionTable ?s"
              "killers s' = killers ?s" "historyTable s' = historyTable ?s"
      by (auto split: if_splits)
    have ex: "\<exists>m \<in> set (drop i moves). futile env nd alpha m" using True mset by auto
    have "PVS_moves env child nd moves scores i movesSearched score alpha toHash s
            = Some (Fallthrough (alpha, alpha, toHash, s'))"
      by (subst PVS_moves.simps) (simp add: nm nn ns True r)
    with ex fr pc show ?thesis by auto
  next
    case nf: False
    then have ill: "doPseudoLegalMove (board env) (n_b nd) m (n_color nd) = None"
      using Suc.prems(1) mset by auto
    from IH [of score] obtain s' where
      r: "PVS_moves env child nd moves' scores' (Suc i) movesSearched score alpha toHash ?s
            = Some (Fallthrough
                  (if \<exists>m \<in> set (drop (Suc i) moves'). futile env nd alpha m then alpha else score,
                   alpha, toHash, s'))"
      and fr: "ply s' = ply ?s" "transpositionTable s' = transpositionTable ?s"
              "killers s' = killers ?s" "historyTable s' = historyTable ?s"
      by blast
    have ex: "(\<exists>m \<in> set (drop i moves). futile env nd alpha m)
              \<longleftrightarrow> (\<exists>m \<in> set (drop (Suc i) moves'). futile env nd alpha m)"
      using st nf by auto
    have "PVS_moves env child nd moves scores i movesSearched score alpha toHash s
            = Some (Fallthrough
                  (if \<exists>m \<in> set (drop (Suc i) moves'). futile env nd alpha m then alpha else score,
                   alpha, toHash, s'))"
      by (subst PVS_moves.simps) (simp add: nm nn ns nf ill r)
    with ex fr pc show ?thesis by auto
  qed
qed


lemma scoreMate_ply: "ply s' = ply s \<Longrightarrow> scoreMate c s' inCheck depth alpha beta = scoreMate c s inCheck depth alpha beta"
  by (simp add: scoreMate_def)

text \<open>
  Claim C3 says that \<open>PVS\<close> returns \<open>scoreMate(isInCheck, depth, alpha, beta)\<close> whenever
  no legal move was searched, also when every candidate was futility-pruned. On the
  concrete instance, at depth 1 with the window \<open>(-5, -4)\<close> and the static evaluation
  -1000, the only move is futility-pruned; \<open>PVS\<close> returns \<open>alpha = -5\<close>, where
  \<open>scoreMate\<close> gives the stalemate score clamped, \<open>-4\<close>.
\<close>

theorem no_move_searched_counterexample:
  "map_option fst (PVS (Suc (Suc 0)) (toyEnv 9) toyState 0 0 1 (- 5) (- 4)) = Some (- 5)
   \<and> scoreMate (common (toyEnv 9)) toyState (isInCheck (board (toyEnv 9)) 0 0) 1 (- 5) (- 4) = - 4"
  by (simp add: toy_defs pvs_defs)

text \<open>
  Claim C3 as the code has it. Take a \<open>PVS\<close> call that reaches its move loop with a list
  of moves proper, the stop flag clear and the clock within the time limit, and suppose
  that every candidate is futility-pruned or fails the legality check, so that no move is
  searched. If no candidate is futility-pruned, \<open>PVS\<close> returns
  \<open>scoreMate(isInCheck, depth, alpha, beta)\<close>; if at least one is, the pruned move has
  set \<open>score\<close> to \<open>alpha\<close> and \<open>PVS\<close> returns \<open>alpha\<close> (for \<open>QUEEN_VALUE \<le> INFTY\<close>).
\<close>

theorem no_move_searched:
  assumes "\<forall>m \<in> set legalMoves. futile env nd alpha m
                \<or> doPseudoLegalMove (board env) (n_b nd) m (n_color nd) = None"
    and "NULL_MOVE \<notin> set legalMoves"
    and "\<forall>n. \<not> clock env n * ONE_SECOND (common env) > real (timeLimit s)"
    and "\<not> isStop s"
    and "length scores = length legalMoves"
    and "QUEEN_VALUE (common env) \<le> INFTY (common env)"
  shows "map_option fst (PVS_loop env child nd hashed alpha legalMoves scores s)
           = Some (if \<exists>m \<in> set legalMoves. futile env nd alpha m then alpha
                   else scoreMate (common env) s (n_isInCheck nd) (n_depth nd) alpha (n_beta nd))"
proof -
  have a1: "\<forall>m \<in> set (drop 0 legalMoves). futile env nd alpha m
                \<or> doPseudoLegalMove (board env) (n_b nd) m (n_color nd) = None"
    using assms(1) by simp
  have a2: "NULL_MOVE \<notin> set (drop 0 legalMoves)" using assms(2) by simp
  from PVS_moves_none_searched [OF a1 a2 assms(3,4,5),
         of child "if hashed = NULL_MOVE then 0 else 1" "- INFTY (common env)" NULL_MOVE]
  obtain s' where
    r: "PVS_moves env child nd legalMoves scores 0 (if hashed = NULL_MOVE then 0 else 1)
          (- INFTY (common env)) alpha NULL_MOVE s
        = Some (Fallthrough
            (if \<exists>m \<in> set legalMoves. futile env nd alpha m then alpha else - INFTY (common env),
             alpha, NULL_MOVE, s'))"
    and pl: "ply s' = ply s"
    unfolding drop_0 by blast
  show ?thesis
  proof (cases "\<exists>m \<in> set legalMoves. futile env nd alpha m")
    case True
    then have "\<bar>alpha\<bar> < QUEEN_VALUE (common env)" by (auto simp: futile_def)
    with assms(6) have "alpha \<noteq> - INFTY (common env)" by auto
    with True r show ?thesis by (simp add: PVS_loop_def PVS_finish_def)
  next
    case False
    with r show ?thesis
      by (simp add: PVS_loop_def PVS_finish_def
            scoreMate_ply [OF pl, of "common env" "n_isInCheck nd" "n_depth nd" alpha "n_beta nd"])
  qed
qed

theorem no_move_searched_witness:
  "map_option fst
     (PVS_loop (toyEnv 0\<lparr>clock := \<lambda>n. 0\<rparr>) (PVS 0 (toyEnv 0))
        \<lparr>n_b = 0, n_color = 0, n_depth = 1, n_beta = - 4, n_prevAlpha = - 5, n_isPVNode = False,
         n_isInCheck = False, n_staticEval = - 1000\<rparr> NULL_MOVE (- 5) [1, 2] [0, 0] toyState)
     = Some (- 5)
   \<and> map_option fst
     (PVS_loop (toyEnv 0\<lparr>clock := \<lambda>n. 0, board := toyBoard\<lparr>doPseudoLegalMove := \<lambda>b m c. None\<rparr>\<rparr>)
        (PVS 0 (toyEnv 0))
        \<lparr>n_b = 0, n_color = 0, n_depth = 1, n_beta = 10, n_prevAlpha = - 10, n_isPVNode = True,
         n_isInCheck = False, n_staticEval = - 1000\<rparr> NULL_MOVE (- 10) [1, 2] [0, 0] toyState)
     = Some 0"
proof -
  let ?e1 = "toyEnv 0\<lparr>clock := \<lambda>n. 0\<rparr>"
  let ?n1 = "\<lparr>n_b = 0 :: nat, n_color = 0, n_depth = 1, n_beta = - 4, n_prevAlpha = - 5,
              n_isPVNode = False, n_isInCheck = False, n_staticEval = - 1000\<rparr>"
  let ?e2 = "toyEnv 0\<lparr>clock := \<lambda>n. 0, board := toyBoard\<lparr>doPseudoLegalMove := \<lambda>b m c. None\<rparr>\<rparr>"
  let ?n2 = "\<lparr>n_b = 0 :: nat, n_color = 0, n_depth = 1, n_beta = 10, n_prevAlpha = - 10,
              n_isPVNode = True, n_isInCheck = False, n_staticEval = - 1000\<rparr>"
  have f1: "futile ?e1 ?n1 (- 5) m" for m
    by (simp add: futile_def toy_defs FUTILITY_MARGIN_def)
  have f2: "\<not> futile ?e2 ?n2 (- 10) m" for m
    by (simp add: futile_def)
  have n: "NULL_MOVE \<notin> set [1, 2 :: Move]" by (simp add: NULL_MOVE_def)
  have t1: "\<forall>n. \<not> clock ?e1 n * ONE_SECOND (common ?e1) > real (timeLimit toyState)"
    by (simp add: toy_defs)
  have t2: "\<forall>n. \<not> clock ?e2 n * ONE_SECOND (common ?e2) > real (timeLimit toyState)"
    by (simp add: toy_defs)
  have st: "\<not> isStop toyState" by (simp add: toy_defs)
  have len: "length [0, 0 :: int] = length [1, 2 :: Move]" by simp
  have q1: "QUEEN_VALUE (common ?e1) \<le> INFTY (common ?e1)" by (simp add: toy_defs)
  have q2: "QUEEN_VALUE (common ?e2) \<le> INFTY (common ?e2)" by (simp add: toy_defs)
  have c1: "\<forall>m \<in> set [1, 2]. futile ?e1 ?n1 (- 5) m
              \<or> doPseudoLegalMove (board ?e1) (n_b ?n1) m (n_color ?n1) = None"
    using f1 by blast
  have c2: "\<forall>m \<in> set [1, 2]. futile ?e2 ?n2 (- 10) m
              \<or> doPseudoLegalMove (board ?e2) (n_b ?n2) m (n_color ?n2) = None"
    by simp
  have a: "map_option fst (PVS_loop ?e1 (PVS 0 (toyEnv 0)) ?n1 NULL_MOVE (- 5) [1, 2] [0, 0] toyState)
             = Some (- 5)"
  proof -
    have ex: "\<exists>m \<in> set [1, 2]. futile ?e1 ?n1 (- 5) m" using f1 by auto
    show ?thesis
      using no_move_searched [OF c1 n t1 st len q1, of "PVS 0 (toyEnv 0)" NULL_MOVE,
              unfolded if_P [OF ex]] .
  qed
  have sm: "scoreMate (common ?e2) toyState False 1 (- 10) 10 = 0"
    by (simp add: scoreMate_def)
  have b: "map_option fst (PVS_loop ?e2 (PVS 0 (toyEnv 0)) ?n2 NULL_MOVE (- 10) [1, 2] [0, 0] toyState)
             = Some 0"
  proof -
    have nex: "\<not> (\<exists>m \<in> set [1, 2]. futile ?e2 ?n2 (- 10) m)" using f2 by auto
    have "map_option fst (PVS_loop ?e2 (PVS 0 (toyEnv 0)) ?n2 NULL_MOVE (- 10) [1, 2] [0, 0] toyState)
            = Some (scoreMate (common ?e2) toyState (n_isInCheck ?n2) (n_depth ?n2) (- 10)
                      (n_beta ?n2))"
      using no_move_searched [OF c2 n t2 st len q2, of "PVS 0 (toyEnv 0)" NULL_MOVE,
              unfolded if_not_P [OF nex]] .
    then show ?thesis using sm by simp
  qed
  from a b show ?thesis by (rule conjI)
qed



section \<open>The stop flag\<close>





section \<open>Termination of the quiescence search\<close>














end
